theory Spec2Isabelle
  imports Complex_Main "HOL-Library.AList"
begin

section \<open>Orthogonal connector router: data model\<close>

text \<open>
  The router works on JavaScript numbers. They are modelled as real numbers: the
  development is about the arithmetic the code writes down, not about rounding, NaN or
  signed zeros.

  A \<open>Point\<close> is a pair of coordinates. A \<open>Rect\<close> (and the class \<open>Rectangle\<close>, which
  holds the same four fields) is a location and a size; \<open>right\<close> and \<open>bottom\<close> are
  derived. The field \<open>top\<close> of the source is written \<open>top'\<close>, because \<open>top\<close> is the
  greatest element of a lattice in HOL.
\<close>

record point =
  x :: real
  y :: real

record Rect =
  left :: real
  top' :: real
  width :: real
  height :: real

datatype Side = Top | Right | Bottom | Left

datatype Direction = Dir_v | Dir_h

datatype BendDirection = B_n | B_e | B_s | B_w | B_unknown | B_none

text \<open>
  A connection point of a routing request. The field \<open>distance\<close> of the source is
  \<open>cp_distance\<close> here, since the source uses the name \<open>distance\<close> for a function and for
  a field of the graph nodes as well.
\<close>

record ConnectorPoint =
  shape :: Rect
  side :: Side
  cp_distance :: real

text \<open>
  Every \<open>throw\<close> of the source, and the one place where it dereferences \<open>null\<close>, is a value
  of this type:
  \<^item> \<open>Nope\<close>: the last statement of \<open>getBend\<close>;
  \<^item> \<open>PointNotFound\<close>: \<open>PointGraph.connect\<close> on a point without a node;
  \<^item> \<open>OriginNodeNotFound p\<close>: \<open>shortestPath\<close> when the origin or the destination has no
    node; the message of both \<open>throw\<close>s names the origin \<open>p\<close>;
  \<^item> \<open>NullNode\<close>: \<open>getLowestDistanceNode\<close> returned \<open>null\<close> and the search read
    \<open>adjacentNodes\<close> of it (a \<open>TypeError\<close>).
\<close>

datatype error = Nope | PointNotFound | OriginNodeNotFound point | NullNode

subsection \<open>Points and rectangles\<close>

definition makePt :: "real \<Rightarrow> real \<Rightarrow> point" where
  "makePt a b = \<lparr>x = a, y = b\<rparr>"

definition distance :: "point \<Rightarrow> point \<Rightarrow> real" where
  "distance a b = sqrt ((x b - x a) ^ 2 + (y b - y a) ^ 2)"

definition fromLTRB :: "real \<Rightarrow> real \<Rightarrow> real \<Rightarrow> real \<Rightarrow> Rect" where
  "fromLTRB l t r b = \<lparr>left = l, top' = t, width = r - l, height = b - t\<rparr>"

definition right :: "Rect \<Rightarrow> real" where
  "right r = left r + width r"

definition bottom :: "Rect \<Rightarrow> real" where
  "bottom r = top' r + height r"

definition Rectangle_contains :: "Rect \<Rightarrow> point \<Rightarrow> bool" where
  "Rectangle_contains r p \<longleftrightarrow>
     x p \<ge> left r \<and> x p \<le> right r \<and> y p \<ge> top' r \<and> y p \<le> bottom r"

definition inflate :: "Rect \<Rightarrow> real \<Rightarrow> real \<Rightarrow> Rect" where
  "inflate r horizontal vertical =
     fromLTRB (left r - horizontal) (top' r - vertical) (right r + horizontal) (bottom r + vertical)"

definition intersects :: "Rect \<Rightarrow> Rect \<Rightarrow> bool" where
  "intersects this rectangle \<longleftrightarrow>
     left rectangle < left this + width this \<and> left this < left rectangle + width rectangle \<and>
     top' rectangle < top' this + height this \<and> top' this < top' rectangle + height rectangle"

definition union_rect :: "Rect \<Rightarrow> Rect \<Rightarrow> Rect" where
  "union_rect this r =
     fromLTRB (min (left this) (min (right this) (min (left r) (right r))))
              (min (top' this) (min (bottom this) (min (top' r) (bottom r))))
              (max (left this) (max (right this) (max (left r) (right r))))
              (max (top' this) (max (bottom this) (max (top' r) (bottom r))))"

subsection \<open>Connector points\<close>

text \<open>The branches are in the order of the source's \<open>switch\<close>.\<close>

definition computePt :: "ConnectorPoint \<Rightarrow> point" where
  "computePt p =
     (let b = shape p in
      case side p of
        Bottom \<Rightarrow> makePt (left b + width b * cp_distance p) (bottom b)
      | Top \<Rightarrow> makePt (left b + width b * cp_distance p) (top' b)
      | Left \<Rightarrow> makePt (left b) (top' b + cp_distance p)
      | Right \<Rightarrow> makePt (right b) (top' b + cp_distance p))"

definition extrudeCp :: "ConnectorPoint \<Rightarrow> real \<Rightarrow> point" where
  "extrudeCp cp margin =
     (let p = computePt cp in
      case side cp of
        Top \<Rightarrow> makePt (x p) (y p - margin)
      | Right \<Rightarrow> makePt (x p + margin) (y p)
      | Bottom \<Rightarrow> makePt (x p) (y p + margin)
      | Left \<Rightarrow> makePt (x p - margin) (y p))"

definition isVerticalSide :: "Side \<Rightarrow> bool" where
  "isVerticalSide s \<longleftrightarrow> s = Top \<or> s = Bottom"

subsection \<open>Bends and path simplification\<close>

text \<open>
  \<open>getBend\<close> ends in \<open>throw new Error('Nope')\<close>; the model keeps that branch, so that its
  being unreachable is a theorem and not an assumption.
\<close>

definition getBend :: "point \<Rightarrow> point \<Rightarrow> point \<Rightarrow> error + BendDirection" where
  "getBend a b c =
     (let equalX = (x a = x b \<and> x b = x c);
          equalY = (y a = y b \<and> y b = y c);
          segment1Horizontal = (y a = y b);
          segment1Vertical = (x a = x b);
          segment2Horizontal = (y b = y c);
          segment2Vertical = (x b = x c)
      in if equalX \<or> equalY then Inr B_none
         else if \<not> (segment1Vertical \<or> segment1Horizontal) \<or>
                 \<not> (segment2Vertical \<or> segment2Horizontal) then Inr B_unknown
         else if segment1Horizontal \<and> segment2Vertical then
                Inr (if y c > y b then B_s else B_n)
         else if segment1Vertical \<and> segment2Horizontal then
                Inr (if x c > x b then B_e else B_w)
         else Inl Nope)"

text \<open>
  The loop of \<open>simplifyPath\<close>, from index \<open>i\<close> with the result \<open>r\<close> built so far. At the
  last index the source pushes the point and leaves the loop.
\<close>

function simplifyPath_loop :: "point list \<Rightarrow> nat \<Rightarrow> point list \<Rightarrow> error + point list" where
  "simplifyPath_loop points i r =
     (if i < length points then
        (let cur = points ! i in
         if i = length points - 1 then Inr (r @ [cur])
         else
           (case getBend (points ! (i - 1)) cur (points ! (i + 1)) of
              Inl e \<Rightarrow> Inl e
            | Inr bend \<Rightarrow>
                simplifyPath_loop points (i + 1) (if bend \<noteq> B_none then r @ [cur] else r)))
      else Inr r)"
  by pat_completeness auto
termination
  by (relation "measure (\<lambda>(points, i, r). length points - i)") auto

declare simplifyPath_loop.simps [simp del]

definition simplifyPath :: "point list \<Rightarrow> error + point list" where
  "simplifyPath points =
     (if length points \<le> 2 then Inr points
      else simplifyPath_loop points 1 [points ! 0])"

subsection \<open>The graph of points\<close>

text \<open>
  A \<open>PointNode\<close> is a mutable object; \<open>shortestPath\<close> and the keys of \<open>adjacentNodes\<close> hold
  references to other nodes. \<open>PointGraph.add\<close> creates at most one node per coordinate and
  nothing else creates nodes, so a reference to a node is modelled by the node's point
  (its field \<open>data\<close>), and the graph is the store: an association list from points to
  the contents of their nodes, in the order of creation. The fields \<open>distance\<close> and
  \<open>shortestPath\<close> are \<open>node_distance\<close> and \<open>node_shortestPath\<close> here. \<open>adjacentNodes\<close> is a
  JavaScript \<open>Map\<close>: an association list in insertion order, where \<open>set\<close> on an existing
  key replaces the value in place (\<open>AList.update\<close>).
\<close>

record PointNode =
  node_distance :: real
  node_shortestPath :: "point list"
  adjacentNodes :: "(point \<times> real) list"

type_synonym PointGraph = "(point \<times> PointNode) list"

type_synonym Line = "point \<times> point"

definition MAX_SAFE_INTEGER :: real where
  "MAX_SAFE_INTEGER = 9007199254740991"

definition new_PointNode :: PointNode where
  "new_PointNode =
     \<lparr>node_distance = MAX_SAFE_INTEGER, node_shortestPath = [], adjacentNodes = []\<rparr>"

text \<open>
  Reading a field through a reference. A reference always points to a node of the store
  in the source; for a point without a node the model reads a fresh node, and a write to
  it (\<open>AList.map_entry\<close>) changes nothing.
\<close>

definition node_of :: "PointGraph \<Rightarrow> point \<Rightarrow> PointNode" where
  "node_of g p = (case map_of g p of Some n \<Rightarrow> n | None \<Rightarrow> new_PointNode)"

definition PointGraph_add :: "PointGraph \<Rightarrow> point \<Rightarrow> PointGraph" where
  "PointGraph_add g p = (case map_of g p of None \<Rightarrow> g @ [(p, new_PointNode)] | Some n \<Rightarrow> g)"

definition PointGraph_has :: "PointGraph \<Rightarrow> point \<Rightarrow> bool" where
  "PointGraph_has g p \<longleftrightarrow> map_of g p \<noteq> None"

definition PointGraph_get :: "PointGraph \<Rightarrow> point \<Rightarrow> PointNode option" where
  "PointGraph_get g p = map_of g p"

definition PointGraph_connect :: "PointGraph \<Rightarrow> point \<Rightarrow> point \<Rightarrow> error + PointGraph" where
  "PointGraph_connect g a b =
     (case PointGraph_get g a of
        None \<Rightarrow> Inl PointNotFound
      | Some nodeA \<Rightarrow>
          (case PointGraph_get g b of
             None \<Rightarrow> Inl PointNotFound
           | Some nodeB \<Rightarrow>
               Inr (AList.map_entry a
                      (\<lambda>n. n\<lparr>adjacentNodes := AList.update b (distance a b) (adjacentNodes n)\<rparr>) g)))"

subsection \<open>The turn-penalised search\<close>

text \<open>
  \<open>directionOf\<close> answers \<open>'h'\<close> for equal \<open>x\<close> and \<open>'v'\<close> for equal \<open>y\<close>, as the source does; only
  whether two directions differ is ever used.
\<close>

definition directionOf :: "point \<Rightarrow> point \<Rightarrow> Direction option" where
  "directionOf a b =
     (if x a = x b then Some Dir_h else if y a = y b then Some Dir_v else None)"

definition directionOfNodes :: "point \<Rightarrow> point \<Rightarrow> Direction option" where
  "directionOfNodes a b = directionOf a b"

definition inferPathDirection :: "PointGraph \<Rightarrow> point \<Rightarrow> Direction option" where
  "inferPathDirection g node =
     (let sp = node_shortestPath (node_of g node) in
      if length sp = 0 then None
      else directionOfNodes (sp ! (length sp - 1)) node)"

text \<open>
  The unsettled nodes are a JavaScript \<open>Set\<close>, iterated in insertion order: a list without
  repetitions, \<open>add\<close> appending an element that is not yet there.
\<close>

definition set_add :: "'a list \<Rightarrow> 'a \<Rightarrow> 'a list" where
  "set_add s a = (if a \<in> set s then s else s @ [a])"

definition getLowestDistanceNode :: "PointGraph \<Rightarrow> point list \<Rightarrow> point option" where
  "getLowestDistanceNode g unsettledNodes =
     fst (fold (\<lambda>node (lowestDistanceNode, lowestDistance).
                  let nodeDistance = node_distance (node_of g node) in
                  if nodeDistance < lowestDistance then (Some node, nodeDistance)
                  else (lowestDistanceNode, lowestDistance))
               unsettledNodes (None, MAX_SAFE_INTEGER))"

definition calculateMinimumDistance :: "PointGraph \<Rightarrow> point \<Rightarrow> real \<Rightarrow> point \<Rightarrow> PointGraph" where
  "calculateMinimumDistance g evaluationNode edgeWeigh sourceNode =
     (let sourceDistance = node_distance (node_of g sourceNode);
          comingDirection = inferPathDirection g sourceNode;
          goingDirection = directionOfNodes sourceNode evaluationNode;
          changingDirection =
            (comingDirection \<noteq> None \<and> goingDirection \<noteq> None \<and> comingDirection \<noteq> goingDirection);
          extraWeigh = (if changingDirection then (edgeWeigh + 1) ^ 2 else 0)
      in if sourceDistance + edgeWeigh + extraWeigh < node_distance (node_of g evaluationNode) then
           AList.map_entry evaluationNode
             (\<lambda>n. n\<lparr>node_distance := sourceDistance + edgeWeigh + extraWeigh,
                     node_shortestPath := node_shortestPath (node_of g sourceNode) @ [sourceNode]\<rparr>) g
         else g)"

text \<open>
  One turn of the inner \<open>for\<close> loop of \<open>calculateShortestPathFromSource\<close>, on the store and
  the unsettled set.
\<close>

definition relax_adjacent ::
  "point \<Rightarrow> point set \<Rightarrow> point \<times> real \<Rightarrow> PointGraph \<times> point list \<Rightarrow> PointGraph \<times> point list" where
  "relax_adjacent currentNode settledNodes edge st =
     (if fst edge \<notin> settledNodes then
        (calculateMinimumDistance (fst st) (fst edge) (snd edge) currentNode,
         set_add (snd st) (fst edge))
      else st)"

definition settle_step :: "PointGraph \<Rightarrow> point list \<Rightarrow> point set \<Rightarrow> point \<Rightarrow> PointGraph \<times> point list" where
  "settle_step g unsettledNodes settledNodes currentNode =
     fold (relax_adjacent currentNode settledNodes) (adjacentNodes (node_of g currentNode))
       (g, removeAll currentNode unsettledNodes)"

text \<open>
  The loop of \<open>calculateShortestPathFromSource\<close> ends because a settled node never enters the
  unsettled set again: a node is taken out of the unsettled set at most twice (twice only
  when it is adjacent to itself). The search changes no key and no adjacency list of the
  store, so the points the store mentions stay the same finite set.
\<close>

definition adj_shape :: "PointGraph \<Rightarrow> (point \<times> (point \<times> real) list) list" where
  "adj_shape g = map (\<lambda>kn. (fst kn, adjacentNodes (snd kn))) g"

definition graph_refs :: "PointGraph \<Rightarrow> point set" where
  "graph_refs g = fst ` set (adj_shape g) \<union> (\<Union>al \<in> snd ` set (adj_shape g). fst ` set al)"

lemma finite_graph_refs: "finite (graph_refs g)"
  by (simp add: graph_refs_def)

lemma adj_shape_map_entry:
  "(\<And>n. adjacentNodes (f n) = adjacentNodes n) \<Longrightarrow> adj_shape (AList.map_entry k f g) = adj_shape g"
  by (induction g) (auto simp: adj_shape_def)

lemma adj_shape_calculateMinimumDistance:
  "adj_shape (calculateMinimumDistance g e w s) = adj_shape g"
  by (simp add: calculateMinimumDistance_def Let_def adj_shape_map_entry)

lemma node_of_adj_in_refs:
  "fst ` set (adjacentNodes (node_of g c)) \<subseteq> graph_refs g"
proof (cases "map_of g c")
  case None
  then show ?thesis by (simp add: node_of_def new_PointNode_def)
next
  case (Some n)
  then have "(c, n) \<in> set g" by (rule map_of_SomeD)
  then have "adjacentNodes n \<in> snd ` set (adj_shape g)"
    by (force simp: adj_shape_def)
  then have "fst ` set (adjacentNodes n) \<subseteq> graph_refs g"
    unfolding graph_refs_def by blast
  then show ?thesis using Some by (simp add: node_of_def)
qed

lemma fold_relax_adjacent:
  "fold (relax_adjacent c S) al (g, U) = (g', U') \<Longrightarrow>
     adj_shape g' = adj_shape g \<and> set U \<subseteq> set U' \<and> set U' \<subseteq> set U \<union> (fst ` set al - S)"
proof (induction al arbitrary: g U)
  case Nil
  then show ?case by simp
next
  case (Cons e al)
  obtain g1 U1 where st: "relax_adjacent c S e (g, U) = (g1, U1)" by (cases "relax_adjacent c S e (g, U)")
  have 1: "adj_shape g1 = adj_shape g \<and> set U \<subseteq> set U1 \<and> set U1 \<subseteq> set U \<union> ({fst e} - S)"
    using st by (auto simp: relax_adjacent_def set_add_def adj_shape_calculateMinimumDistance split: if_splits)
  from Cons.prems st have "fold (relax_adjacent c S) al (g1, U1) = (g', U')" by simp
  from Cons.IH[OF this] 1 show ?case by auto
qed

lemma settle_step_props:
  assumes "settle_step g U S c = (g', U')"
  shows "adj_shape g' = adj_shape g" and "set U' \<subseteq> (set U - {c}) \<union> (graph_refs g - S)"
    and "set U - {c} \<subseteq> set U'"
proof -
  from assms have f: "fold (relax_adjacent c S) (adjacentNodes (node_of g c)) (g, removeAll c U) = (g', U')"
    by (simp add: settle_step_def)
  from fold_relax_adjacent[OF f] show "adj_shape g' = adj_shape g" by simp
  from fold_relax_adjacent[OF f] have "set U' \<subseteq> set (removeAll c U) \<union> (fst ` set (adjacentNodes (node_of g c)) - S)"
    by simp
  with node_of_adj_in_refs[of g c]
  show "set U' \<subseteq> (set U - {c}) \<union> (graph_refs g - S)" by (simp only: set_removeAll) blast
  from fold_relax_adjacent[OF f] show "set U - {c} \<subseteq> set U'" by auto
qed

lemma getLowest_fold_mem:
  "fst (fold (\<lambda>node (ln, ld). let nd = node_distance (node_of g node) in
                  if nd < ld then (Some node, nd) else (ln, ld)) U (ln0, ld0)) = Some c
   \<Longrightarrow> c \<in> set U \<or> ln0 = Some c"
proof (induction U arbitrary: ln0 ld0)
  case Nil
  then show ?case by simp
next
  case (Cons a U)
  show ?case
  proof (cases "node_distance (node_of g a) < ld0")
    case True
    with Cons.prems Cons.IH[of "Some a" "node_distance (node_of g a)"] show ?thesis
      by (auto simp: Let_def)
  next
    case False
    with Cons.prems Cons.IH[of ln0 ld0] show ?thesis by (auto simp: Let_def)
  qed
qed

lemma getLowestDistanceNode_mem:
  "getLowestDistanceNode g U = Some c \<Longrightarrow> c \<in> set U"
  unfolding getLowestDistanceNode_def using getLowest_fold_mem[of g U None MAX_SAFE_INTEGER c]
  by simp

definition search_measure :: "PointGraph \<times> point list \<times> point set \<Rightarrow> nat" where
  "search_measure st = (case st of (g, U, S) \<Rightarrow>
      2 * card ((graph_refs g \<union> set U) - S) + card (set U \<inter> S))"

lemma search_measure_decreases:
  assumes c: "c \<in> set U" and st: "settle_step g U S c = (g', U')"
  shows "search_measure (g', U', insert c S) < search_measure (g, U, S)"
proof -
  note p = settle_step_props[OF st]
  have refs: "graph_refs g' = graph_refs g" using p(1) by (simp add: graph_refs_def)
  let ?A = "(graph_refs g \<union> set U) - S"
  let ?A' = "(graph_refs g' \<union> set U') - insert c S"
  have fin: "finite ?A" by (simp add: finite_graph_refs)
  have sub: "?A' \<subseteq> ?A - {c}" using p(2) refs by auto
  show ?thesis
  proof (cases "c \<in> S")
    case True
    have a: "card ?A' \<le> card ?A" using sub fin by (meson Diff_subset card_mono subset_trans)
    have "set U' \<inter> insert c S \<subseteq> (set U \<inter> S) - {c}" using p(2) True by auto
    moreover have "c \<in> set U \<inter> S" using c True by simp
    ultimately have "set U' \<inter> insert c S \<subset> set U \<inter> S" by blast
    then have "card (set U' \<inter> insert c S) < card (set U \<inter> S)"
      by (intro psubset_card_mono) auto
    with a show ?thesis by (simp add: search_measure_def)
  next
    case False
    then have "c \<in> ?A" using c by simp
    then have "card (?A - {c}) < card ?A" using fin by (meson card_Diff1_less)
    moreover have "card ?A' \<le> card (?A - {c})" using sub fin by (intro card_mono) auto
    ultimately have a: "card ?A' + 1 \<le> card ?A" by simp
    have "set U' \<inter> insert c S \<subseteq> insert c (set U \<inter> S)" using p(2) by auto
    then have "card (set U' \<inter> insert c S) \<le> card (insert c (set U \<inter> S))"
      by (intro card_mono) auto
    also have "\<dots> \<le> card (set U \<inter> S) + 1" by (simp add: card_insert_if)
    finally show ?thesis using a by (simp add: search_measure_def)
  qed
qed

text \<open>
  The \<open>while\<close> loop of \<open>calculateShortestPathFromSource\<close>. When no unsettled node has a
  distance below \<open>MAX_SAFE_INTEGER\<close>, \<open>getLowestDistanceNode\<close> returns \<open>null\<close> and the loop body
  fails on \<open>currentNode.adjacentNodes\<close>.
\<close>

function search_loop :: "PointGraph \<Rightarrow> point list \<Rightarrow> point set \<Rightarrow> error + PointGraph" where
  "search_loop g unsettledNodes settledNodes =
     (if length unsettledNodes = 0 then Inr g
      else
        (case getLowestDistanceNode g unsettledNodes of
           None \<Rightarrow> Inl NullNode
         | Some currentNode \<Rightarrow>
             (case settle_step g unsettledNodes settledNodes currentNode of
                (g', unsettledNodes') \<Rightarrow>
                  search_loop g' unsettledNodes' (insert currentNode settledNodes))))"
  by pat_completeness auto
termination
  apply (relation "measure search_measure")
   apply simp
  apply (simp only: in_measure)
  apply (rule search_measure_decreases)
   apply (erule getLowestDistanceNode_mem)
  apply simp
  done

declare search_loop.simps [simp del]


definition calculateShortestPathFromSource :: "PointGraph \<Rightarrow> point \<Rightarrow> error + PointGraph" where
  "calculateShortestPathFromSource g source =
     search_loop (AList.map_entry source (\<lambda>n. n\<lparr>node_distance := 0\<rparr>) g) [source] {}"

text \<open>
  \<open>shortestPath\<close> changes the nodes of the graph it is given, and \<open>route\<close> calls it twice on
  the same graph; so the model returns the store after the search together with the
  path. The path is the list of the \<open>data\<close> of the destination's recorded predecessors,
  which are the references themselves.
\<close>

definition shortestPath :: "PointGraph \<Rightarrow> point \<Rightarrow> point \<Rightarrow> error + PointGraph \<times> point list" where
  "shortestPath graph origin destination =
     (case PointGraph_get graph origin of
        None \<Rightarrow> Inl (OriginNodeNotFound origin)
      | Some originNode \<Rightarrow>
          (case PointGraph_get graph destination of
             None \<Rightarrow> Inl (OriginNodeNotFound origin)
           | Some destinationNode \<Rightarrow>
               (case calculateShortestPathFromSource graph origin of
                  Inl e \<Rightarrow> Inl e
                | Inr graph' \<Rightarrow> Inr (graph', node_shortestPath (node_of graph' destination)))))"

subsection \<open>Building the graph from the spots\<close>

fun fold_err :: "('a \<Rightarrow> 's \<Rightarrow> error + 's) \<Rightarrow> 'a list \<Rightarrow> 's \<Rightarrow> error + 's" where
  "fold_err f [] s = Inr s"
| "fold_err f (a # as) s = (case f a s of Inl e \<Rightarrow> Inl e | Inr s' \<Rightarrow> fold_err f as s')"

text \<open>The first loop of \<open>createGraph\<close>: the distinct coordinates and the nodes.\<close>

definition createGraph_collect :: "point list \<Rightarrow> real list \<times> real list \<times> PointGraph" where
  "createGraph_collect spots =
     fold (\<lambda>p (hotXs, hotYs, graph).
             (if x p \<in> set hotXs then hotXs else hotXs @ [x p],
              if y p \<in> set hotYs then hotYs else hotYs @ [y p],
              PointGraph_add graph p))
          spots ([], [], [])"

text \<open>\<open>graph.connect(a, b); graph.connect(b, a); connections.push({ a, b })\<close>\<close>

definition connect_pair :: "point \<Rightarrow> point \<Rightarrow> PointGraph \<times> Line list \<Rightarrow> error + PointGraph \<times> Line list" where
  "connect_pair a b st =
     (case PointGraph_connect (fst st) a b of
        Inl e \<Rightarrow> Inl e
      | Inr g1 \<Rightarrow>
          (case PointGraph_connect g1 b a of
             Inl e \<Rightarrow> Inl e
           | Inr g2 \<Rightarrow> Inr (g2, snd st @ [(a, b)])))"

text \<open>The body of the nested loops of \<open>createGraph\<close> at the indices \<open>i\<close> and \<open>j\<close>.\<close>

definition createGraph_cell ::
  "real list \<Rightarrow> real list \<Rightarrow> nat \<Rightarrow> nat \<Rightarrow> PointGraph \<times> Line list \<Rightarrow> error + PointGraph \<times> Line list" where
  "createGraph_cell hotXs hotYs i j st =
     (let b = makePt (hotXs ! j) (hotYs ! i) in
      if \<not> PointGraph_has (fst st) b then Inr st
      else
        (case (if j > 0 then
                 (let a = makePt (hotXs ! (j - 1)) (hotYs ! i) in
                  if PointGraph_has (fst st) a then connect_pair a b st else Inr st)
               else Inr st) of
           Inl e \<Rightarrow> Inl e
         | Inr st1 \<Rightarrow>
             (if i > 0 then
                (let a = makePt (hotXs ! j) (hotYs ! (i - 1)) in
                 if PointGraph_has (fst st1) a then connect_pair a b st1 else Inr st1)
              else Inr st1)))"

definition createGraph :: "point list \<Rightarrow> error + PointGraph \<times> Line list" where
  "createGraph spots =
     (case createGraph_collect spots of
        (hotXs0, hotYs0, graph) \<Rightarrow>
          (let hotXs = sort hotXs0; hotYs = sort hotYs0 in
           fold_err (\<lambda>i. fold_err (\<lambda>j. createGraph_cell hotXs hotYs i j) [0..<length hotXs])
             [0..<length hotYs] (graph, [])))"

text \<open>Every edge of the store, as (from, to, weight), in the order of the store.\<close>

definition graph_edges :: "PointGraph \<Rightarrow> (point \<times> point \<times> real) list" where
  "graph_edges g = concat (map (\<lambda>kn. map (\<lambda>e. (fst kn, fst e, snd e)) (adjacentNodes (snd kn))) g)"

subsection \<open>Spots\<close>

text \<open>
  \<open>reducePoints\<close> groups the \<open>x\<close> values by \<open>y\<close> in a \<open>Map\<close> (insertion order), skipping an
  \<open>x\<close> that the row already has, and reads the points back row by row.
\<close>

definition reducePoints :: "point list \<Rightarrow> point list" where
  "reducePoints points =
     (let m = fold (\<lambda>p m.
                (case map_of m (y p) of
                   None \<Rightarrow> m @ [(y p, [x p])]
                 | Some arr \<Rightarrow>
                     if x p \<in> set arr then m else AList.update (y p) (arr @ [x p]) m))
              points []
      in concat (map (\<lambda>row. map (\<lambda>xx. makePt xx (fst row)) (snd row)) m))"

definition obstacleCollision :: "Rect list \<Rightarrow> point \<Rightarrow> bool" where
  "obstacleCollision obstacles p \<longleftrightarrow> length (filter (\<lambda>ob. Rectangle_contains ob p) obstacles) > 0"

text \<open>\<open>Math.round\<close>: the nearest integer, a half rounded up.\<close>

definition Math_round :: "real \<Rightarrow> real" where
  "Math_round v = of_int \<lfloor>v + 1 / 2\<rfloor>"

text \<open>\<open>v || 0\<close> on a number: \<open>0\<close> is the only real that is falsy.\<close>

definition or_zero :: "real \<Rightarrow> real" where
  "or_zero v = (if v = 0 then 0 else v)"

text \<open>The values of a counter that starts at \<open>-20\<close> and runs while it is below \<open>n\<close>.\<close>

definition counter_from_minus_20 :: "real \<Rightarrow> real list" where
  "counter_from_minus_20 n = map of_int [- 20 .. \<lceil>n\<rceil> - 1]"

text \<open>
  \<open>gridToSpots2\<close>, the lattice of spots that \<open>route\<close> uses. \<open>obstacles[0]\<close> and \<open>obstacles[1]\<close>
  are the two (inflated) shapes: \<open>route\<close> always passes them first. The local names
  \<open>width\<close> and \<open>height\<close> of the source are \<open>gridWidth\<close> and \<open>gridHeight\<close>.
\<close>

definition gridToSpots2 :: "ConnectorPoint \<Rightarrow> ConnectorPoint \<Rightarrow> real \<Rightarrow> Rect list \<Rightarrow> point list" where
  "gridToSpots2 shapeA shapeB shapeMargin obstacles =
     (let margin = 30;
          rectA = obstacles ! 0;
          distanceA = cp_distance shapeA + shapeMargin;
          rectB = obstacles ! 1;
          distanceB = cp_distance shapeB + shapeMargin;
          x1 = min (left rectA + width rectA) (left rectB + width rectB) + margin;
          y1 = min (top' rectA + distanceA) (top' rectB + distanceB);
          x2 = max (left rectA) (left rectB) - margin;
          y2 = max (top' rectA + distanceA) (top' rectB + distanceB);
          gridWidth = \<bar>or_zero x2 - or_zero x1\<bar>;
          gridHeight = \<bar>or_zero y2 - or_zero y1\<bar>;
          rows = (if gridHeight / 10 > 10 then Math_round (gridHeight / 10) + 20 else 30);
          cols = (if gridWidth / 10 > 10 then Math_round (gridWidth / 10) + 20 else 30);
          xStep = 10;
          yStep = 10;
          gridPoints =
            concat (map (\<lambda>i. map (\<lambda>j. makePt (Math_round (x1 + j * xStep)) (Math_round (y1 + i * yStep)))
                                  (counter_from_minus_20 cols))
                        (counter_from_minus_20 rows))
      in filter (\<lambda>p. \<not> obstacleCollision obstacles p) (reducePoints gridPoints))"

subsection \<open>Rulers and grid\<close>

text \<open>
  \<open>rulersToGrid\<close> fills the grid row by row; the model is the list of the rows, each the
  list of its cells, which is also the order of \<open>Grid.rectangles\<close>.
\<close>

definition grid_row :: "real list \<Rightarrow> Rect \<Rightarrow> real \<Rightarrow> real \<Rightarrow> Rect list" where
  "grid_row verticals bounds lastY yy =
     (case fold (\<lambda>xx (cells, lastX). (cells @ [fromLTRB lastX lastY xx yy], xx))
             verticals ([], left bounds) of
        (cells, lastX) \<Rightarrow> cells @ [fromLTRB lastX lastY (right bounds) yy])"

definition rulersToGrid :: "real list \<Rightarrow> real list \<Rightarrow> Rect \<Rightarrow> Rect list list" where
  "rulersToGrid verticals horizontals bounds =
     (let vs = sort verticals; hs = sort horizontals in
      case fold (\<lambda>yy (rows, lastY). (rows @ [grid_row vs bounds lastY yy], yy)) hs ([], top' bounds) of
        (rows, lastY) \<Rightarrow> rows @ [grid_row vs bounds lastY (bottom bounds)])"

subsection \<open>The routing request\<close>

text \<open>
  The request. \<open>nodes\<close> is the list of the rectangles \<open>(design.x, design.y, design.width,
  design.height)\<close> of the canvas nodes, in the order of \<open>Object.values\<close>; the drawing context
  \<open>ctx\<close> is never read by \<open>route\<close>.
\<close>

record OrthogonalConnectorOpts =
  nodes :: "Rect list"
  pointA :: ConnectorPoint
  pointB :: ConnectorPoint
  shapeMargin :: real
  globalBoundsMargin :: real
  globalBounds :: Rect

text \<open>
  The margin and the two shapes after the collision check of \<open>route\<close>: when the inflated
  shapes intersect, the margin is \<open>0\<close> and the shapes are used as they are.
\<close>

definition route_shapes :: "OrthogonalConnectorOpts \<Rightarrow> real \<times> Rect \<times> Rect" where
  "route_shapes opts =
     (let shapeA = shape (pointA opts);
          shapeB = shape (pointB opts);
          inflatedA = inflate shapeA (shapeMargin opts) (shapeMargin opts);
          inflatedB = inflate shapeB (shapeMargin opts) (shapeMargin opts)
      in if intersects inflatedA inflatedB then (0, shapeA, shapeB)
         else (shapeMargin opts, inflatedA, inflatedB))"

text \<open>
  The \<open>bounds\<close> of \<open>route\<close>. The source writes
  \<open>Rectangle.fromLTRB(Math.max(inflatedBounds.left), Math.max(inflatedBounds.top),
  Math.min(inflatedBounds.right), Math.min(inflatedBounds.bottom))\<close>: each \<open>Math.max\<close> and
  \<open>Math.min\<close> has one argument and returns it. \<open>bigBounds\<close>, the rectangle of
  \<open>opts.globalBounds\<close>, is computed and never read.
\<close>

definition route_bounds :: "OrthogonalConnectorOpts \<Rightarrow> Rect" where
  "route_bounds opts =
     (case route_shapes opts of
        (margin, inflatedA, inflatedB) \<Rightarrow>
          (let inflatedBounds =
                 inflate (union_rect inflatedA inflatedB) (globalBoundsMargin opts) (globalBoundsMargin opts)
           in fromLTRB (left inflatedBounds) (top' inflatedBounds)
                (right inflatedBounds) (bottom inflatedBounds)))"

definition route_rulers :: "OrthogonalConnectorOpts \<Rightarrow> real list \<times> real list" where
  "route_rulers opts =
     (case route_shapes opts of
        (margin, inflatedA, inflatedB) \<Rightarrow>
          (let sideAVertical = isVerticalSide (side (pointA opts));
               sideBVertical = isVerticalSide (side (pointB opts));
               originA = computePt (pointA opts);
               originB = computePt (pointB opts);
               verticals = [left inflatedA, right inflatedA, left inflatedB, right inflatedB]
                 @ (if sideAVertical then [x originA] else [])
                 @ (if sideBVertical then [x originB] else []);
               horizontals = [top' inflatedA, bottom inflatedA, top' inflatedB, bottom inflatedB]
                 @ (if sideAVertical then [] else [y originA])
                 @ (if sideBVertical then [] else [y originB])
           in (sort verticals, sort horizontals)))"

text \<open>The grid of the request, which \<open>route\<close> builds from the rulers and the bounds.\<close>

definition route_grid :: "OrthogonalConnectorOpts \<Rightarrow> Rect list list" where
  "route_grid opts =
     (case route_rulers opts of
        (verticals, horizontals) \<Rightarrow> rulersToGrid verticals horizontals (route_bounds opts))"

text \<open>The antenna spot that \<open>route\<close> pushes for a connector point.\<close>

definition antenna_spot :: "ConnectorPoint \<Rightarrow> real \<Rightarrow> point" where
  "antenna_spot connectorPt margin =
     (let p = computePt connectorPt in
      case side connectorPt of
        Top \<Rightarrow> makePt (x p + 0) (y p + (- margin))
      | Right \<Rightarrow> makePt (x p + margin) (y p + 0)
      | Bottom \<Rightarrow> makePt (x p + 0) (y p + margin)
      | Left \<Rightarrow> makePt (x p + (- margin)) (y p + 0))"

definition route_spots :: "OrthogonalConnectorOpts \<Rightarrow> point list" where
  "route_spots opts =
     (case route_shapes opts of
        (margin, inflatedA, inflatedB) \<Rightarrow>
          (let inflates = map (\<lambda>nodeShape. inflate nodeShape margin margin) (nodes opts);
               gridPoints = gridToSpots2 (pointA opts) (pointB opts) margin
                              ([inflatedA, inflatedB] @ inflates)
           in [antenna_spot (pointA opts) margin, antenna_spot (pointB opts) margin] @ gridPoints))"

text \<open>
  \<open>route\<close>. The diagnostic byproduct is written and never read by the routing itself; the
  grid is part of it only. The search runs twice on the same graph when the first path
  is not empty.
\<close>

definition route :: "OrthogonalConnectorOpts \<Rightarrow> error + point list" where
  "route opts =
     (case route_shapes opts of
        (margin, inflatedA, inflatedB) \<Rightarrow>
          (case createGraph (route_spots opts) of
             Inl e \<Rightarrow> Inl e
           | Inr (graph, connections) \<Rightarrow>
               (let origin = extrudeCp (pointA opts) margin;
                    destination = extrudeCp (pointB opts) margin;
                    start = computePt (pointA opts);
                    end = computePt (pointB opts)
                in case shortestPath graph origin destination of
                     Inl e \<Rightarrow> Inl e
                   | Inr (graph1, pathConnector) \<Rightarrow>
                       if length pathConnector > 0 then
                         (case shortestPath graph1 origin destination of
                            Inl e \<Rightarrow> Inl e
                          | Inr (graph2, path2) \<Rightarrow> simplifyPath ([start] @ path2 @ [end]))
                       else Inr [])))"

section \<open>Auxiliary definitions of the proofs\<close>

text \<open>
  The indices of the interior points that \<open>simplifyPath\<close> keeps from index \<open>i\<close> on, and the
  same selection written by recursion on the list: \<open>keep_from a xs\<close> is what the loop adds
  for the points \<open>xs\<close> that follow the point \<open>a\<close>.
\<close>

definition kept_indices :: "point list \<Rightarrow> nat \<Rightarrow> nat list" where
  "kept_indices P i =
     filter (\<lambda>k. getBend (P ! (k - 1)) (P ! k) (P ! (k + 1)) \<noteq> Inr B_none) [i..<length P - 1]"

fun keep_from :: "point \<Rightarrow> point list \<Rightarrow> point list" where
  "keep_from a [] = []"
| "keep_from a [b] = [b]"
| "keep_from a (b # c # rest) =
     (if getBend a b c \<noteq> Inr B_none then [b] else []) @ keep_from b (c # rest)"

text \<open>
  Lists in which at most one point is repeated, and that point at consecutive positions
  only: \<open>c_run a xs\<close> holds when \<open>xs\<close> is some copies of \<open>a\<close> followed by different points
  other than \<open>a\<close>, and \<open>one_run\<close> when such a run starts somewhere in the list and the points
  before it occur once.
\<close>

definition c_run :: "point \<Rightarrow> point list \<Rightarrow> bool" where
  "c_run a xs \<longleftrightarrow> distinct (a # dropWhile (\<lambda>p. p = a) xs)"

fun one_run :: "point list \<Rightarrow> bool" where
  "one_run [] = True"
| "one_run (a # xs) = (c_run a xs \<or> (a \<notin> set xs \<and> one_run xs))"

text \<open>
  The weight of the edge from \<open>p\<close> to \<open>q\<close> in the store, if there is one; and the invariant
  of \<open>createGraph\<close>: keys without repetition in the store and in every adjacency list, every
  edge between two points that share exactly one coordinate, weighted by their distance,
  and present in both directions.
\<close>

definition adj_map :: "PointGraph \<Rightarrow> point \<Rightarrow> point \<Rightarrow> real option" where
  "adj_map g p q = (case map_of g p of None \<Rightarrow> None | Some n \<Rightarrow> map_of (adjacentNodes n) q)"

definition graph_ok :: "PointGraph \<Rightarrow> bool" where
  "graph_ok g \<longleftrightarrow>
     distinct (map fst g) \<and>
     (\<forall>p n. map_of g p = Some n \<longrightarrow> distinct (map fst (adjacentNodes n))) \<and>
     (\<forall>p q w. adj_map g p q = Some w \<longrightarrow>
        w = distance p q \<and> ((x p = x q) \<noteq> (y p = y q)) \<and> adj_map g q p = Some w)"

text \<open>
  The cost that \<open>calculateMinimumDistance\<close> compares with the distance of the evaluated
  node: the distance of the source node, the weight of the edge and the penalty.
\<close>

definition relax_cost :: "PointGraph \<Rightarrow> point \<Rightarrow> point \<Rightarrow> real \<Rightarrow> real" where
  "relax_cost g c v w =
     node_distance (node_of g c) + w +
     (if inferPathDirection g c \<noteq> None \<and> directionOfNodes c v \<noteq> None \<and>
         inferPathDirection g c \<noteq> directionOfNodes c v
      then (w + 1) ^ 2 else 0)"

text \<open>
  The invariant of the search on a graph whose nodes start without a recorded path:
  the last node of a recorded path is settled (or the node being settled), the path
  continues the path of that node, and that node is not farther than the node itself.
\<close>

definition chain_inv :: "PointGraph \<Rightarrow> point set \<Rightarrow> bool" where
  "chain_inv g S \<longleftrightarrow>
     (\<forall>v. node_shortestPath (node_of g v) \<noteq> [] \<longrightarrow>
        last (node_shortestPath (node_of g v)) \<in> S \<and>
        node_shortestPath (node_of g v) =
          node_shortestPath (node_of g (last (node_shortestPath (node_of g v))))
            @ [last (node_shortestPath (node_of g v))] \<and>
        node_distance (node_of g (last (node_shortestPath (node_of g v))))
          \<le> node_distance (node_of g v))"

definition nonneg_weights :: "PointGraph \<Rightarrow> bool" where
  "nonneg_weights g \<longleftrightarrow> (\<forall>p v w. (v, w) \<in> set (adjacentNodes (node_of g p)) \<longrightarrow> 0 \<le> w)"

text \<open>
  The invariant of the search that does not depend on the settled set, for a search from
  \<open>src\<close> on a graph whose edges are weighted by the distance of their end points: a
  recorded path starts at \<open>src\<close>; only \<open>src\<close> has a distance below \<open>MAX_SAFE_INTEGER\<close> without a
  recorded path; every node of a recorded path is strictly nearer than the node that
  records it; a node is adjacent to the last node of its recorded path; no distance is
  negative; \<open>src\<close> has distance \<open>0\<close> and no path.
\<close>

definition path_inv :: "PointGraph \<Rightarrow> point \<Rightarrow> bool" where
  "path_inv g src \<longleftrightarrow>
     (\<forall>v. node_shortestPath (node_of g v) \<noteq> [] \<longrightarrow> hd (node_shortestPath (node_of g v)) = src) \<and>
     (\<forall>v. node_distance (node_of g v) < MAX_SAFE_INTEGER \<and> node_shortestPath (node_of g v) = []
          \<longrightarrow> v = src) \<and>
     (\<forall>v. \<forall>u \<in> set (node_shortestPath (node_of g v)).
          node_distance (node_of g u) < node_distance (node_of g v)) \<and>
     (\<forall>v. node_shortestPath (node_of g v) \<noteq> [] \<longrightarrow>
          v \<in> fst ` set (adjacentNodes (node_of g (last (node_shortestPath (node_of g v)))))) \<and>
     (\<forall>p v w. (v, w) \<in> set (adjacentNodes (node_of g p)) \<longrightarrow> w = distance p v) \<and>
     (\<forall>v. 0 \<le> node_distance (node_of g v)) \<and>
     node_shortestPath (node_of g src) = [] \<and> node_distance (node_of g src) = 0"

text \<open>
  A graph as \<open>createGraph\<close> returns it: every node as \<open>new PointNode\<close> made it, and every
  edge weighted by the distance of its end points.
\<close>

definition fresh_nodes :: "PointGraph \<Rightarrow> bool" where
  "fresh_nodes g \<longleftrightarrow>
     (\<forall>n \<in> snd ` set g. node_distance n = MAX_SAFE_INTEGER \<and> node_shortestPath n = [])"

definition distance_weights :: "PointGraph \<Rightarrow> bool" where
  "distance_weights g \<longleftrightarrow>
     (\<forall>e \<in> set (graph_edges g). snd (snd e) = distance (fst e) (fst (snd e)))"

section \<open>Connector points\<close>

lemma computePt_top_bottom:
  "side cp = Top \<Longrightarrow> computePt cp = makePt (left (shape cp) + width (shape cp) * cp_distance cp) (top' (shape cp))"
  "side cp = Bottom \<Longrightarrow> computePt cp = makePt (left (shape cp) + width (shape cp) * cp_distance cp) (bottom (shape cp))"
  by (simp_all add: computePt_def Let_def)

text \<open>
  Claim C1. On the sides \<open>top\<close> and \<open>bottom\<close>, \<open>computePt\<close> fixes \<open>y\<close> at the top or the bottom of
  the shape, and it multiplies the distance by the width of the shape: for a shape of
  width 100 at the origin and the distance 25 the point has \<open>x = 2500\<close>, not \<open>x = 25\<close>. On
  the sides \<open>left\<close> and \<open>right\<close> the same function adds the distance as it is.
\<close>

theorem computePt_top_scales_by_width:
  "computePt \<lparr>shape = \<lparr>left = 0, top' = 0, width = 100, height = 50\<rparr>, side = Top, cp_distance = 25\<rparr>
     = \<lparr>x = 2500, y = 0\<rparr> \<and>
   computePt \<lparr>shape = \<lparr>left = 0, top' = 0, width = 100, height = 50\<rparr>, side = Bottom, cp_distance = 25\<rparr>
     = \<lparr>x = 2500, y = 50\<rparr>"
  by (simp add: computePt_def makePt_def bottom_def)

section \<open>Bends and simplification\<close>

lemma point_eq_iff: "(a::point) = b \<longleftrightarrow> x a = x b \<and> y a = y b"
  by (auto intro: point.equality)

lemma getBend_total: "\<exists>r. getBend a b c = Inr r"
  by (auto simp: getBend_def Let_def)

lemma getBend_none_iff:
  "getBend a b c = Inr B_none \<longleftrightarrow> (x a = x b \<and> x b = x c) \<or> (y a = y b \<and> y b = y c)"
  by (auto simp: getBend_def Let_def)

lemma simplifyPath_loop_eq:
  "i < length P \<Longrightarrow>
   simplifyPath_loop P i r = Inr (r @ map (\<lambda>k. P ! k) (kept_indices P i) @ [last P])"
proof (induction P i r rule: simplifyPath_loop.induct)
  case (1 points i r)
  show ?case
  proof (cases "i = length points - 1")
    case True
    with "1.prems" have "points \<noteq> []" by auto
    with True show ?thesis
      using "1.prems" by (subst simplifyPath_loop.simps) (simp add: kept_indices_def last_conv_nth)
  next
    case False
    with "1.prems" have lt: "i < length points - 1" by simp
    obtain bend where b: "getBend (points ! (i - 1)) (points ! i) (points ! (i + 1)) = Inr bend"
      using getBend_total by blast
    have ki: "kept_indices points i =
        (if bend \<noteq> B_none then [i] else []) @ kept_indices points (i + 1)"
      using lt b by (simp add: kept_indices_def upt_conv_Cons)
    have "simplifyPath_loop points i r =
        simplifyPath_loop points (i + 1) (if bend \<noteq> B_none then r @ [points ! i] else r)"
      using "1.prems" False b by (subst simplifyPath_loop.simps) (simp add: Let_def)
    also have "\<dots> = Inr ((if bend \<noteq> B_none then r @ [points ! i] else r)
          @ map (\<lambda>k. points ! k) (kept_indices points (i + 1)) @ [last points])"
      using "1.IH"[OF _ refl False b] "1.prems" lt by simp
    finally show ?thesis using ki by simp
  qed
qed

lemma simplifyPath_eq:
  "2 < length P \<Longrightarrow>
   simplifyPath P = Inr (P ! 0 # map (\<lambda>k. P ! k) (kept_indices P 1) @ [last P])"
  by (simp add: simplifyPath_def simplifyPath_loop_eq)

text \<open>
  Claim C10. \<open>getBend\<close> returns a bend direction for every three points: its last
  statement, the \<open>throw\<close>, is never reached. \<open>simplifyPath\<close> returns a list for every input,
  and an interior point whose bend is \<open>unknown\<close> is in it.
\<close>

theorem getBend_never_throws:
  "(\<exists>r. getBend a b c = Inr r) \<and>
   (\<exists>Q. simplifyPath P = Inr Q \<and>
      (\<forall>i. 0 < i \<and> i + 1 < length P \<and>
           getBend (P ! (i - 1)) (P ! i) (P ! (i + 1)) = Inr B_unknown \<longrightarrow> P ! i \<in> set Q))"
proof
  show "\<exists>r. getBend a b c = Inr r" by (rule getBend_total)
next
  show "\<exists>Q. simplifyPath P = Inr Q \<and>
      (\<forall>i. 0 < i \<and> i + 1 < length P \<and>
           getBend (P ! (i - 1)) (P ! i) (P ! (i + 1)) = Inr B_unknown \<longrightarrow> P ! i \<in> set Q)"
  proof (cases "2 < length P")
    case False
    then have "simplifyPath P = Inr P" by (simp add: simplifyPath_def)
    then show ?thesis by auto
  next
    case True
    let ?Q = "P ! 0 # map (\<lambda>k. P ! k) (kept_indices P 1) @ [last P]"
    have "\<forall>i. 0 < i \<and> i + 1 < length P \<and>
           getBend (P ! (i - 1)) (P ! i) (P ! (i + 1)) = Inr B_unknown \<longrightarrow> P ! i \<in> set ?Q"
    proof (intro allI impI)
      fix i
      assume a: "0 < i \<and> i + 1 < length P \<and>
           getBend (P ! (i - 1)) (P ! i) (P ! (i + 1)) = Inr B_unknown"
      then have "i \<in> set (kept_indices P 1)" by (auto simp: kept_indices_def)
      then show "P ! i \<in> set ?Q" by simp
    qed
    with simplifyPath_eq[OF True] show ?thesis by blast
  qed
qed

theorem getBend_never_throws_witness:
  "\<exists>Q. simplifyPath [makePt 0 0, makePt 3 4, makePt 3 9] = Inr Q \<and> makePt 3 4 \<in> set Q"
proof -
  let ?P = "[makePt 0 0, makePt 3 4, makePt 3 9]"
  from getBend_never_throws[of "makePt 0 0" "makePt 3 4" "makePt 3 9" ?P]
  obtain Q where q: "simplifyPath ?P = Inr Q"
    and k: "\<forall>i. 0 < i \<and> i + 1 < length ?P \<and>
           getBend (?P ! (i - 1)) (?P ! i) (?P ! (i + 1)) = Inr B_unknown \<longrightarrow> ?P ! i \<in> set Q"
    by blast
  have "0 < (1::nat) \<and> 1 + 1 < length ?P \<and>
         getBend (?P ! (1 - 1)) (?P ! 1) (?P ! (1 + 1)) = Inr B_unknown"
    by (simp add: getBend_def makePt_def)
  with k have "?P ! 1 \<in> set Q" by blast
  with q show ?thesis by simp
qed

lemma simplifyPath_loop_keep_from:
  "0 < i \<Longrightarrow> i < length P \<Longrightarrow>
   simplifyPath_loop P i r = Inr (r @ keep_from (P ! (i - 1)) (drop i P))"
proof (induction P i r rule: simplifyPath_loop.induct)
  case (1 points i r)
  show ?case
  proof (cases "i = length points - 1")
    case True
    with "1.prems" have "drop i points = [points ! i]"
      by (metis Cons_nth_drop_Suc Suc_diff_1 drop_all length_greater_0_conv less_imp_diff_less
          linorder_not_less list.size(3) order_refl)
    with True "1.prems" show ?thesis
      by (subst simplifyPath_loop.simps) simp
  next
    case False
    with "1.prems" have lt: "i + 1 < length points" by simp
    obtain bend where b: "getBend (points ! (i - 1)) (points ! i) (points ! (i + 1)) = Inr bend"
      using getBend_total by blast
    have d: "drop i points = points ! i # points ! (i + 1) # drop (i + 2) points"
      using lt by (simp add: Cons_nth_drop_Suc)
    have d1: "drop (Suc i) points = points ! (Suc i) # drop (Suc (Suc i)) points"
      using lt by (simp add: Cons_nth_drop_Suc)
    have "simplifyPath_loop points i r =
        simplifyPath_loop points (i + 1) (if bend \<noteq> B_none then r @ [points ! i] else r)"
      using "1.prems" False b by (subst simplifyPath_loop.simps) (simp add: Let_def)
    also have "\<dots> = Inr ((if bend \<noteq> B_none then r @ [points ! i] else r)
          @ keep_from (points ! i) (drop (i + 1) points))"
      using "1.IH"[OF _ refl False b] "1.prems" lt by simp
    finally show ?thesis using b by (simp add: d d1)
  qed
qed

lemma simplifyPath_keep_from: "simplifyPath (a # xs) = Inr (a # keep_from a xs)"
proof (cases "2 < length (a # xs)")
  case True
  then have "xs \<noteq> []" by auto
  with True show ?thesis
    using simplifyPath_loop_keep_from[of 1 "a # xs" "[a]"] by (simp add: simplifyPath_def)
next
  case False
  then have "xs = [] \<or> (\<exists>b. xs = [b])" by (cases xs) auto
  then show ?thesis by (auto simp: simplifyPath_def)
qed

lemma none_left:
  "getBend a b c = Inr B_none \<Longrightarrow> a \<noteq> c \<Longrightarrow> b \<noteq> c \<Longrightarrow>
   (getBend a c d = Inr B_none) = (getBend b c d = Inr B_none)"
  by (auto simp: getBend_none_iff point_eq_iff)

lemma none_right:
  "getBend b c d = Inr B_none \<Longrightarrow> b \<noteq> c \<Longrightarrow> b \<noteq> d \<Longrightarrow>
   (getBend a b c = Inr B_none) = (getBend a b d = Inr B_none)"
  by (auto simp: getBend_none_iff point_eq_iff)

lemma keep_from_skip:
  "getBend a b c = Inr B_none \<Longrightarrow> a \<noteq> c \<Longrightarrow> b \<noteq> c \<Longrightarrow>
   keep_from b (c # rest) = keep_from a (c # rest)"
  by (cases rest) (simp_all add: none_left)

lemma keep_from_not_Nil: "xs \<noteq> [] \<Longrightarrow> keep_from a xs \<noteq> []"
  by (induction a xs rule: keep_from.induct) auto

lemma keep_from_hd:
  "distinct (b # zs) \<Longrightarrow> zs \<noteq> [] \<Longrightarrow>
   (getBend a b (hd (keep_from b zs)) = Inr B_none) = (getBend a b (hd zs) = Inr B_none)"
proof (induction zs)
  case Nil
  then show ?case by simp
next
  case (Cons c rest)
  show ?case
  proof (cases rest)
    case Nil
    then show ?thesis by simp
  next
    case (Cons d rest')
    show ?thesis
    proof (cases "getBend b c d = Inr B_none")
      case True
      have ne: "b \<noteq> c" "b \<noteq> d" "c \<noteq> d" using Cons.prems Cons by auto
      have "keep_from b (c # rest) = keep_from c (d # rest')" using True Cons by simp
      also have "\<dots> = keep_from b (d # rest')" using keep_from_skip[OF True] ne by simp
      finally have "(getBend a b (hd (keep_from b (c # rest))) = Inr B_none)
          = (getBend a b (hd (keep_from b rest)) = Inr B_none)" using Cons by simp
      also have "\<dots> = (getBend a b d = Inr B_none)"
        using Cons.IH Cons.prems Cons by simp
      also have "\<dots> = (getBend a b c = Inr B_none)"
        using none_right[OF True ne(1) ne(2)] by simp
      finally show ?thesis by simp
    next
      case False
      then show ?thesis using Cons by simp
    qed
  qed
qed

lemma keep_from_idem:
  "distinct (a # xs) \<Longrightarrow> keep_from a (keep_from a xs) = keep_from a xs"
proof (induction xs arbitrary: a)
  case Nil
  then show ?case by simp
next
  case (Cons b tl)
  show ?case
  proof (cases tl)
    case Nil
    then show ?thesis by simp
  next
    case (Cons c rest)
    have ne: "a \<noteq> c" "b \<noteq> c" using Cons.prems Cons by auto
    show ?thesis
    proof (cases "getBend a b c = Inr B_none")
      case True
      have "keep_from a (b # tl) = keep_from b (c # rest)" using True Cons by simp
      also have "\<dots> = keep_from a tl" using keep_from_skip[OF True ne] Cons by simp
      finally have e: "keep_from a (b # tl) = keep_from a tl" .
      have "distinct (a # tl)" using Cons.prems by simp
      from Cons.IH[OF this] e show ?thesis by simp
    next
      case False
      let ?ys = "keep_from b tl"
      have e: "keep_from a (b # tl) = b # ?ys" using False Cons by simp
      have "?ys \<noteq> []" using keep_from_not_Nil Cons by simp
      then obtain c' ys' where ys: "?ys = c' # ys'" by (cases ?ys) auto
      have d: "distinct (b # tl)" using Cons.prems by simp
      have "(getBend a b (hd ?ys) = Inr B_none) = (getBend a b (hd tl) = Inr B_none)"
        using keep_from_hd[OF d] Cons by simp
      then have nb: "getBend a b c' \<noteq> Inr B_none" using False ys Cons by simp
      have "keep_from a (b # ?ys) = b # keep_from b ?ys" using nb ys by simp
      also have "\<dots> = b # ?ys" using Cons.IH[OF d] by simp
      finally show ?thesis using e by simp
    qed
  qed
qed

lemma distinct_c_run: "distinct (a # xs) \<Longrightarrow> c_run a xs"
  unfolding c_run_def using set_dropWhileD[of _ "\<lambda>p. p = a" xs] by auto

lemma c_run_one_run: "c_run a xs \<Longrightarrow> one_run xs"
proof (induction xs)
  case Nil
  then show ?case by simp
next
  case (Cons b ys)
  show ?case
  proof (cases "b = a")
    case True
    with Cons.prems have "c_run a ys" by (simp add: c_run_def)
    with True show ?thesis by simp
  next
    case False
    with Cons.prems have "distinct (b # ys)" by (simp add: c_run_def)
    then have "c_run b ys" by (rule distinct_c_run)
    then show ?thesis by simp
  qed
qed

lemma one_run_tail: "one_run (a # xs) \<Longrightarrow> one_run xs"
  using c_run_one_run by auto

lemma one_run_remove2: "one_run (a # b # ts) \<Longrightarrow> one_run (a # ts)"
proof -
  assume o: "one_run (a # b # ts)"
  show ?thesis
  proof (cases "c_run a (b # ts)")
    case True
    show ?thesis
    proof (cases "b = a")
      case True
      with \<open>c_run a (b # ts)\<close> have "c_run a ts" by (simp add: c_run_def)
      then show ?thesis by simp
    next
      case False
      with True have "distinct (a # ts)" by (simp add: c_run_def)
      then have "c_run a ts" by (rule distinct_c_run)
      then show ?thesis by simp
    qed
  next
    case False
    with o have "a \<notin> set ts" "one_run (b # ts)" by simp_all
    with one_run_tail[of b ts] show ?thesis by simp
  qed
qed

lemma one_run_ne3: "one_run (a # b # c # rest) \<Longrightarrow> a \<noteq> b \<Longrightarrow> a \<noteq> c"
  by (auto simp: c_run_def)

lemma one_run_at_second:
  assumes "one_run (a # b # b # rest)" "a \<noteq> b"
  shows "a \<notin> set (b # dropWhile (\<lambda>p. p = b) rest)" "distinct (b # dropWhile (\<lambda>p. p = b) rest)"
  using assms set_dropWhileD[of a "\<lambda>p. p = b" rest] by (auto simp: c_run_def)

lemma one_run_at_first:
  assumes "one_run (a # a # ts)"
  shows "distinct (a # dropWhile (\<lambda>p. p = a) ts)"
  using assms by (auto simp: c_run_def)

lemma keep_from_dropWhile:
  "keep_from b (b # xs) = keep_from b (b # dropWhile (\<lambda>p. p = b) xs)"
proof (induction xs)
  case Nil
  then show ?case by simp
next
  case (Cons c ys)
  show ?case
  proof (cases "c = b")
    case True
    have "getBend b b b = Inr B_none" by (simp add: getBend_none_iff)
    then have "keep_from b (b # c # ys) = keep_from b (b # ys)" using True by simp
    with Cons.IH True show ?thesis by simp
  next
    case False
    then show ?thesis by simp
  qed
qed

lemma diag_bend_right: "x a \<noteq> x d \<Longrightarrow> y a \<noteq> y d \<Longrightarrow> getBend a d e \<noteq> Inr B_none"
  by (simp add: getBend_none_iff)

lemma diag_bend_left: "x a \<noteq> x d \<Longrightarrow> y a \<noteq> y d \<Longrightarrow> getBend p a d \<noteq> Inr B_none"
  by (simp add: getBend_none_iff)

lemma dup_bend: "getBend a a d \<noteq> Inr B_none \<longleftrightarrow> x a \<noteq> x d \<and> y a \<noteq> y d"
  by (auto simp: getBend_none_iff)

lemma dup_bend': "getBend a d d \<noteq> Inr B_none \<longleftrightarrow> x a \<noteq> x d \<and> y a \<noteq> y d"
  by (auto simp: getBend_none_iff)

lemma keep_from_subset: "set (keep_from a xs) \<subseteq> set xs"
  by (induction a xs rule: keep_from.induct) auto

lemma keep_from_length: "length (keep_from a xs) \<le> length xs"
  by (induction a xs rule: keep_from.induct) auto

lemma keep_from_hd_mem: "xs \<noteq> [] \<Longrightarrow> hd (keep_from a xs) \<in> set xs"
  using keep_from_subset[of a xs] keep_from_not_Nil[of xs a] by (cases "keep_from a xs") auto

text \<open>The first point kept after \<open>b\<close> in a list of different points lies on the axis line through
  \<open>b\<close> and its successor.\<close>

lemma keep_from_hd_line:
  assumes d: "distinct (b # zs)" and ne: "zs \<noteq> []"
    and al: "x b = x (hd zs) \<or> y b = y (hd zs)"
  shows "(x (hd zs) = x b \<and> x b = x (hd (keep_from b zs))) \<or>
         (y (hd zs) = y b \<and> y b = y (hd (keep_from b zs)))"
proof -
  have "getBend (hd zs) b (hd zs) = Inr B_none" using al by (auto simp: getBend_none_iff)
  with keep_from_hd[OF d ne, of "hd zs"]
  have "getBend (hd zs) b (hd (keep_from b zs)) = Inr B_none" by simp
  then show ?thesis by (simp add: getBend_none_iff)
qed

text \<open>A list that starts with copies of one point, the other points pairwise different.\<close>

lemma keep_from_idem_first:
  assumes d: "distinct (a # zs)"
  shows "keep_from a (keep_from a (a # zs)) = keep_from a (a # zs)"
proof (cases zs)
  case Nil
  then show ?thesis by simp
next
  case (Cons e r)
  show ?thesis
  proof (cases "getBend a a e = Inr B_none")
    case True
    then have "keep_from a (a # zs) = keep_from a zs" using Cons by simp
    with keep_from_idem[OF d] show ?thesis by simp
  next
    case False
    then have dg: "x a \<noteq> x e" "y a \<noteq> y e" by (simp_all add: dup_bend)
    show ?thesis
    proof (cases r)
      case Nil
      with Cons False show ?thesis by simp
    next
      case c2: (Cons e2 r2)
      have ke: "getBend a e e2 \<noteq> Inr B_none" by (rule diag_bend_right[OF dg])
      have k1: "keep_from a (a # zs) = a # e # keep_from e r"
        using Cons c2 False ke by simp
      have "keep_from e r \<noteq> []" using c2 keep_from_not_Nil by simp
      then obtain u us where u: "keep_from e r = u # us" by (cases "keep_from e r") auto
      have de: "distinct (e # r)" using d Cons by simp
      have "keep_from a (a # e # u # us) = a # e # keep_from e (u # us)"
        using False diag_bend_right[OF dg, of u] by simp
      also have "keep_from e (u # us) = u # us" using keep_from_idem[OF de] u by simp
      finally show ?thesis using k1 u by simp
    qed
  qed
qed

lemma keep_from_idem_aligned:
  assumes d: "distinct (b # zs)" and a: "a \<notin> set (b # zs)"
    and ab: "x a = x b \<or> y a = y b"
    and ne: "zs \<noteq> []" and bd: "x b = x (hd zs) \<or> y b = y (hd zs)"
  shows "keep_from a (keep_from b zs) = keep_from b zs"
proof -
  let ?K = "keep_from b zs"
  have kb: "keep_from b ?K = ?K" by (rule keep_from_idem[OF d])
  have "?K \<noteq> []" using ne keep_from_not_Nil by simp
  then obtain u us where u: "?K = u # us" by (cases ?K) auto
  show ?thesis
  proof (cases us)
    case Nil
    with u show ?thesis by simp
  next
    case (Cons u2 us2)
    have nb: "getBend b u u2 \<noteq> Inr B_none"
    proof
      assume "getBend b u u2 = Inr B_none"
      then have "keep_from b ?K = keep_from u (u2 # us2)" using u Cons by simp
      with kb have "length ?K = length (keep_from u (u2 # us2))" by simp
      also have "\<dots> \<le> length (u2 # us2)" by (rule keep_from_length)
      finally show False using u Cons by simp
    qed
    then have t: "keep_from u (u2 # us2) = u2 # us2" using kb u Cons by simp
    have "u = hd ?K" using u by simp
    with keep_from_hd_line[OF d ne bd]
    have line: "(x (hd zs) = x b \<and> x b = x u) \<or> (y (hd zs) = y b \<and> y b = y u)" by simp
    have "u \<in> set zs" using keep_from_hd_mem[OF ne, of b] u by simp
    then have ub: "u \<noteq> b" "u \<noteq> a" using d a by auto
    have "a \<noteq> b" using a by auto
    have "getBend a u u2 \<noteq> Inr B_none"
      using nb line ub ab \<open>a \<noteq> b\<close> by (auto simp: getBend_none_iff point_eq_iff)
    then have "keep_from a (u # u2 # us2) = u # keep_from u (u2 # us2)" by simp
    with t u Cons show ?thesis by simp
  qed
qed

lemma keep_from_hd_one_run:
  "one_run (b # ts) \<Longrightarrow> ts \<noteq> [] \<Longrightarrow> getBend a b (hd ts) \<noteq> Inr B_none \<Longrightarrow>
   getBend a b (hd (keep_from b ts)) \<noteq> Inr B_none"
proof (induction ts)
  case Nil
  then show ?case by simp
next
  case (Cons c rest)
  show ?case
  proof (cases rest)
    case Nil
    with Cons.prems show ?thesis by simp
  next
    case r: (Cons d r)
    show ?thesis
    proof (cases "getBend b c d = Inr B_none")
      case False
      with r Cons.prems show ?thesis by simp
    next
      case True
      have k: "keep_from b (c # rest) = keep_from c (d # r)" using True r by simp
      show ?thesis
      proof (cases "b = c")
        case True
        with Cons.prems(3) have "x a \<noteq> x b" "y a \<noteq> y b" by (simp_all add: dup_bend')
        then show ?thesis by (rule diag_bend_right)
      next
        case bc: False
        show ?thesis
        proof (cases "c = d")
          case False
          have bd: "b \<noteq> d" using one_run_ne3[of b c d r] Cons.prems(1) r bc by simp
          have "keep_from c (d # r) = keep_from b (d # r)"
            by (rule keep_from_skip[OF True bd False])
          with k r have k2: "keep_from b (c # rest) = keep_from b rest" by simp
          have o: "one_run (b # rest)" using one_run_remove2 Cons.prems(1) by blast
          have "getBend a b d \<noteq> Inr B_none"
            using none_right[OF True bc bd, of a] Cons.prems(3) by simp
          with Cons.IH[OF o] r have "getBend a b (hd (keep_from b rest)) \<noteq> Inr B_none" by simp
          with k2 show ?thesis by simp
        next
          case cd: True
          let ?zs = "dropWhile (\<lambda>p. p = c) r"
          have o: "one_run (b # c # c # r)" using Cons.prems(1) r cd by simp
          note s = one_run_at_second[OF o bc]
          have k3: "keep_from b (c # rest) = keep_from c (c # ?zs)"
            using k cd keep_from_dropWhile[of c r] by simp
          have al: "x b = x c \<or> y b = y c" using True cd by (auto simp: getBend_none_iff)
          have nb: "getBend a b c \<noteq> Inr B_none" using Cons.prems(3) by simp
          show ?thesis
          proof (cases ?zs)
            case Nil
            with k3 nb show ?thesis by simp
          next
            case z: (Cons e r')
            show ?thesis
            proof (cases "getBend c c e = Inr B_none")
              case False
              then have "hd (keep_from c (c # ?zs)) = c" using z by simp
              with k3 nb show ?thesis by simp
            next
              case ce: True
              then have k4: "keep_from b (c # rest) = keep_from c ?zs" using k3 z by simp
              have ne: "?zs \<noteq> []" using z by simp
              have al2: "x c = x (hd ?zs) \<or> y c = y (hd ?zs)"
                using ce z by (auto simp: getBend_none_iff)
              let ?u = "hd (keep_from c ?zs)"
              from keep_from_hd_line[OF s(2) ne al2]
              have line: "(x (hd ?zs) = x c \<and> x c = x ?u) \<or> (y (hd ?zs) = y c \<and> y c = y ?u)" .
              have "?u \<in> set ?zs" by (rule keep_from_hd_mem[OF ne])
              then have ub: "?u \<noteq> b" "?u \<noteq> c" using s by auto
              have "getBend a b ?u \<noteq> Inr B_none"
                using nb line ub al bc by (auto simp: getBend_none_iff point_eq_iff)
              with k4 show ?thesis by simp
            qed
          qed
        qed
      qed
    qed
  qed
qed

lemma keep_from_idem_one_run:
  "one_run (a # xs) \<Longrightarrow> keep_from a (keep_from a xs) = keep_from a xs"
proof (induction xs arbitrary: a)
  case Nil
  then show ?case by simp
next
  case (Cons b ts)
  show ?case
  proof (cases ts)
    case Nil
    then show ?thesis by simp
  next
    case t: (Cons c rest)
    show ?thesis
    proof (cases "a = b")
      case True
      let ?zs = "dropWhile (\<lambda>p. p = a) ts"
      have d: "distinct (a # ?zs)" using one_run_at_first Cons.prems True by simp
      have "keep_from a (b # ts) = keep_from a (a # ?zs)"
        using True keep_from_dropWhile[of a ts] by simp
      with keep_from_idem_first[OF d] show ?thesis by simp
    next
      case ab: False
      have ac: "a \<noteq> c" using one_run_ne3[of a b c rest] Cons.prems t ab by simp
      show ?thesis
      proof (cases "b = c")
        case bc: False
        show ?thesis
        proof (cases "getBend a b c = Inr B_none")
          case True
          have "keep_from a (b # ts) = keep_from b (c # rest)" using True t by simp
          also have "\<dots> = keep_from a ts" using keep_from_skip[OF True ac bc] t by simp
          finally have e: "keep_from a (b # ts) = keep_from a ts" .
          have "one_run (a # ts)" using one_run_remove2 Cons.prems by blast
          from Cons.IH[OF this] e show ?thesis by simp
        next
          case False
          let ?ys = "keep_from b ts"
          have e: "keep_from a (b # ts) = b # ?ys" using False t by simp
          have "?ys \<noteq> []" using keep_from_not_Nil t by simp
          then obtain c' ys' where ys: "?ys = c' # ys'" by (cases ?ys) auto
          have o: "one_run (b # ts)" using one_run_tail Cons.prems by blast
          have "getBend a b (hd ?ys) \<noteq> Inr B_none"
            by (rule keep_from_hd_one_run[OF o]) (use t False in simp_all)
          then have nb: "getBend a b c' \<noteq> Inr B_none" using ys by simp
          have "keep_from a (b # ?ys) = b # keep_from b ?ys" using nb ys by simp
          also have "\<dots> = b # ?ys" using Cons.IH[OF o] by simp
          finally show ?thesis using e by simp
        qed
      next
        case bc: True
        let ?zs = "dropWhile (\<lambda>p. p = b) rest"
        have o: "one_run (a # b # b # rest)" using Cons.prems t bc by simp
        note s = one_run_at_second[OF o ab]
        let ?K = "keep_from b (b # ?zs)"
        have kk: "keep_from b (b # rest) = ?K" by (rule keep_from_dropWhile)
        have idK: "keep_from b ?K = ?K" by (rule keep_from_idem_first[OF s(2)])
        have "?K \<noteq> []" using keep_from_not_Nil by simp
        then obtain u us where u: "?K = u # us" by (cases ?K) auto
        show ?thesis
        proof (cases "getBend a b b = Inr B_none")
          case False
          then have dg: "x a \<noteq> x b" "y a \<noteq> y b" by (simp_all add: dup_bend')
          have e: "keep_from a (b # ts) = b # ?K" using False t bc kk by simp
          have "keep_from a (b # u # us) = b # keep_from b (u # us)"
            using diag_bend_right[OF dg, of u] by simp
          with idK u e show ?thesis by simp
        next
          case True
          then have al: "x a = x b \<or> y a = y b" by (auto simp: getBend_none_iff)
          have e: "keep_from a (b # ts) = ?K" using True t bc kk by simp
          show ?thesis
          proof (cases ?zs)
            case Nil
            with e show ?thesis by simp
          next
            case z: (Cons d r)
            show ?thesis
            proof (cases "getBend b b d = Inr B_none")
              case bd: False
              then have dg: "x b \<noteq> x d" "y b \<noteq> y d" by (simp_all add: dup_bend)
              have K1: "?K = b # keep_from b ?zs" using bd z by simp
              then have ub: "u = b" "us = keep_from b ?zs" using u by simp_all
              have "us \<noteq> []" using ub z keep_from_not_Nil by simp
              then obtain v vs where v: "us = v # vs" by (cases us) auto
              have "v = d"
              proof (cases r)
                case Nil
                with z ub v show ?thesis by simp
              next
                case (Cons d2 r2)
                have "getBend b d d2 \<noteq> Inr B_none" by (rule diag_bend_right[OF dg])
                with z Cons ub v show ?thesis by simp
              qed
              have "getBend a b v \<noteq> Inr B_none"
                unfolding \<open>v = d\<close> by (rule diag_bend_left[OF dg])
              then have "keep_from a (b # v # vs) = b # keep_from b (v # vs)" by simp
              moreover have "keep_from b (b # v # vs) = b # keep_from b (v # vs)"
                using bd \<open>v = d\<close> by simp
              moreover have Kv: "?K = b # v # vs" using u ub(1) v by simp
              ultimately have "keep_from a ?K = keep_from b ?K" by (simp only:)
              with idK e show ?thesis by simp
            next
              case bd: True
              then have K2: "?K = keep_from b ?zs" using z by simp
              have ne: "?zs \<noteq> []" using z by simp
              have al2: "x b = x (hd ?zs) \<or> y b = y (hd ?zs)"
                using bd z by (auto simp: getBend_none_iff)
              have "keep_from a (keep_from b ?zs) = keep_from b ?zs"
                by (rule keep_from_idem_aligned[OF s(2) s(1) al ne al2])
              with K2 e show ?thesis by simp
            qed
          qed
        qed
      qed
    qed
  qed
qed

lemma one_run_append:
  "distinct (ys @ c # zs) \<Longrightarrow> one_run (ys @ replicate n c @ zs)"
proof (induction ys)
  case Nil
  have d: "distinct (c # zs)" using Nil by simp
  have cr: "c_run c (replicate m c @ zs)" for m
  proof (induction m)
    case 0
    show ?case using distinct_c_run[OF d] by simp
  next
    case (Suc m)
    then show ?case by (simp add: c_run_def)
  qed
  show ?case
  proof (cases n)
    case 0
    have "one_run zs" using c_run_one_run[OF distinct_c_run[OF d]] .
    with 0 show ?thesis by simp
  next
    case (Suc m)
    with cr[of m] show ?thesis by simp
  qed
next
  case (Cons a ys)
  then have "a \<notin> set (ys @ replicate n c @ zs)" "one_run (ys @ replicate n c @ zs)" by auto
  then show ?case by simp
qed

text \<open>
  Claim C8, as amended. For a list in which at most one point occurs more than once, and
  that point at consecutive positions only (the list \<open>ys @ replicate n c @ zs\<close>, where the
  points of \<open>ys\<close>, the point \<open>c\<close> and the points of \<open>zs\<close> are pairwise different), simplifying
  twice gives what simplifying once gives. For every list, \<open>simplifyPath\<close> returns a list of
  at most two points as it is; of a longer list it keeps the first point, the last point,
  and the interior points whose bend against their two neighbours in the input is not
  \<open>none\<close>.
\<close>

theorem simplifyPath_idempotent_one_repeat:
  "(distinct (ys @ c # zs) \<longrightarrow>
      (\<exists>Q. simplifyPath (ys @ replicate n c @ zs) = Inr Q \<and> simplifyPath Q = Inr Q)) \<and>
   (length P \<le> 2 \<longrightarrow> simplifyPath P = Inr P) \<and>
   (2 < length P \<longrightarrow>
      simplifyPath P =
        Inr (P ! 0 #
             map (\<lambda>k. P ! k)
               (filter (\<lambda>k. getBend (P ! (k - 1)) (P ! k) (P ! (k + 1)) \<noteq> Inr B_none)
                  [1..<length P - 1])
             @ [last P]))"
proof (intro conjI impI)
  assume d: "distinct (ys @ c # zs)"
  let ?P = "ys @ replicate n c @ zs"
  have o: "one_run ?P" by (rule one_run_append[OF d])
  show "\<exists>Q. simplifyPath ?P = Inr Q \<and> simplifyPath Q = Inr Q"
  proof (cases ?P)
    case Nil
    then show ?thesis by (simp add: simplifyPath_def)
  next
    case (Cons a xs)
    then have "simplifyPath (a # keep_from a xs) = Inr (a # keep_from a xs)"
      using o keep_from_idem_one_run[of a xs] by (simp add: simplifyPath_keep_from)
    then show ?thesis using Cons by (simp add: simplifyPath_keep_from)
  qed
next
  assume "length P \<le> 2"
  then show "simplifyPath P = Inr P" by (simp add: simplifyPath_def)
next
  assume "2 < length P"
  from simplifyPath_eq[OF this]
  show "simplifyPath P =
        Inr (P ! 0 #
             map (\<lambda>k. P ! k)
               (filter (\<lambda>k. getBend (P ! (k - 1)) (P ! k) (P ! (k + 1)) \<noteq> Inr B_none)
                  [1..<length P - 1])
             @ [last P])"
    by (simp add: kept_indices_def)
qed

theorem simplifyPath_idempotent_one_repeat_witness:
  "simplifyPath [makePt 0 0, makePt 0 0, makePt 0 5, makePt 5 5]
     = Inr [makePt 0 0, makePt 0 5, makePt 5 5] \<and>
   simplifyPath [makePt 0 0, makePt 0 5, makePt 5 5]
     = Inr [makePt 0 0, makePt 0 5, makePt 5 5]"
proof -
  let ?P = "[makePt 0 0, makePt 0 0, makePt 0 5, makePt 5 5]"
  have d: "distinct ([] @ makePt 0 0 # [makePt 0 5, makePt 5 5])" by (simp add: makePt_def)
  have p: "[] @ replicate 2 (makePt 0 0) @ [makePt 0 5, makePt 5 5] = ?P"
    by (simp add: numeral_2_eq_2)
  have l: "2 < length ?P" by simp
  from simplifyPath_idempotent_one_repeat[of "[]" "makePt 0 0" "[makePt 0 5, makePt 5 5]" 2 ?P] d l
  obtain Q where q: "simplifyPath ?P = Inr Q" "simplifyPath Q = Inr Q"
    and e: "simplifyPath ?P =
        Inr (?P ! 0 #
             map (\<lambda>k. ?P ! k)
               (filter (\<lambda>k. getBend (?P ! (k - 1)) (?P ! k) (?P ! (k + 1)) \<noteq> Inr B_none)
                  [1..<length ?P - 1])
             @ [last ?P])"
    unfolding p by blast
  have u: "[1..<length ?P - 1] = [1, 2]" by (simp add: upt_rec)
  have "simplifyPath ?P = Inr [makePt 0 0, makePt 0 5, makePt 5 5]"
    unfolding e u by (simp add: getBend_def makePt_def)
  with q show ?thesis by simp
qed

text \<open>
  A path that returns to a point it has visited: the first pass drops \<open>(5, 0)\<close> and leaves
  the two copies of \<open>(0, 0)\<close> next to each other, and the second pass drops one of them.
\<close>

theorem simplifyPath_not_idempotent:
  "simplifyPath [makePt 0 0, makePt 5 0, makePt 0 0, makePt 0 7]
     = Inr [makePt 0 0, makePt 0 0, makePt 0 7] \<and>
   simplifyPath [makePt 0 0, makePt 0 0, makePt 0 7] = Inr [makePt 0 0, makePt 0 7]"
  by (simp add: simplifyPath_def simplifyPath_loop.simps getBend_def makePt_def Let_def)

text \<open>
  Two points repeated at consecutive positions: the first pass drops both copies of
  \<open>(3, 5)\<close> and of \<open>(3, 9)\<close>, which leaves \<open>(0, 5)\<close> between two points of its column, and
  the second pass drops it.
\<close>

lemma simplifyPath_two_repeats:
  "simplifyPath [makePt 0 0, makePt 0 5, makePt 3 5, makePt 3 5, makePt 3 9, makePt 3 9, makePt 0 9]
     = Inr [makePt 0 0, makePt 0 5, makePt 0 9] \<and>
   simplifyPath [makePt 0 0, makePt 0 5, makePt 0 9] = Inr [makePt 0 0, makePt 0 9]"
  by (simp add: simplifyPath_def simplifyPath_loop.simps getBend_def makePt_def Let_def)

section \<open>The working bounds\<close>

lemma route_bounds_ignores_globalBounds:
  "route_bounds (opts\<lparr>globalBounds := gb\<rparr>) = route_bounds opts"
  by (simp add: route_bounds_def route_shapes_def Let_def)

text \<open>
  Claim C7. The bounds that \<open>route\<close> hands to the grid are the union of the two inflated
  shapes, inflated by the global margin; they are not clipped. Two shapes inside the
  global bounds \<open>(0, 0, 400, 50)\<close> with the global margin 100 give bounds that start at
  \<open>-110\<close>, outside the global bounds.
\<close>

theorem route_bounds_outside_globalBounds:
  "route_bounds
     \<lparr>nodes = [],
      pointA = \<lparr>shape = \<lparr>left = 0, top' = 0, width = 100, height = 50\<rparr>, side = Right, cp_distance = 25\<rparr>,
      pointB = \<lparr>shape = \<lparr>left = 300, top' = 0, width = 100, height = 50\<rparr>, side = Left, cp_distance = 25\<rparr>,
      shapeMargin = 10, globalBoundsMargin = 100,
      globalBounds = \<lparr>left = 0, top' = 0, width = 400, height = 50\<rparr>\<rparr>
   = \<lparr>left = - 110, top' = - 110, width = 620, height = 270\<rparr>"
  by (simp add: route_bounds_def route_shapes_def inflate_def union_rect_def fromLTRB_def
      intersects_def right_def bottom_def)

section \<open>Relaxation\<close>

lemma node_of_map_entry:
  "node_of (AList.map_entry k f g) p =
     (if p = k \<and> map_of g k \<noteq> None then f (node_of g k) else node_of g p)"
  by (auto simp: node_of_def map_of_map_entry split: option.splits)




section \<open>The graph built from the spots\<close>

lemma distance_commute: "distance a b = distance b a"
  by (simp add: distance_def power2_commute)

lemma map_fst_map_entry: "map fst (AList.map_entry k f g) = map fst g"
  by (induction g) auto

lemma connect_Inr:
  assumes "map_of g a = Some na" "map_of g b = Some nb"
  shows "\<exists>g1. PointGraph_connect g a b = Inr g1 \<and> map fst g1 = map fst g \<and>
    (\<forall>p q. adj_map g1 p q = (if p = a \<and> q = b then Some (distance a b) else adj_map g p q)) \<and>
    (\<forall>p n. map_of g1 p = Some n \<longrightarrow>
       (\<exists>n0. map_of g p = Some n0 \<and>
          (distinct (map fst (adjacentNodes n0)) \<longrightarrow> distinct (map fst (adjacentNodes n)))))"
proof -
  let ?f = "\<lambda>n. n\<lparr>adjacentNodes := AList.update b (distance a b) (adjacentNodes n)\<rparr>"
  let ?g1 = "AList.map_entry a ?f g"
  have c: "PointGraph_connect g a b = Inr ?g1"
    using assms by (simp add: PointGraph_connect_def PointGraph_get_def)
  have k: "map fst ?g1 = map fst g" by (rule map_fst_map_entry)
  have m: "\<forall>p q. adj_map ?g1 p q = (if p = a \<and> q = b then Some (distance a b) else adj_map g p q)"
    using assms by (auto simp: adj_map_def map_of_map_entry update_conv' split: option.splits)
  have d: "\<forall>p n. map_of ?g1 p = Some n \<longrightarrow>
       (\<exists>n0. map_of g p = Some n0 \<and>
          (distinct (map fst (adjacentNodes n0)) \<longrightarrow> distinct (map fst (adjacentNodes n))))"
    using assms by (auto simp: map_of_map_entry distinct_update split: option.splits if_splits)
  from c k m d show ?thesis by blast
qed

lemma map_of_keys_eq:
  "map fst g1 = map fst g \<Longrightarrow> (map_of g1 p = None) = (map_of g p = None)"
  by (metis map_of_eq_None_iff set_map)

lemma has_keys_eq:
  "map fst g1 = map fst g \<Longrightarrow> PointGraph_has g1 p = PointGraph_has g p"
  unfolding PointGraph_has_def using map_of_keys_eq[of g1 g p] by simp

lemma connect_pair_ok:
  assumes ok: "graph_ok (fst st)"
    and a: "PointGraph_has (fst st) a" and b: "PointGraph_has (fst st) b"
    and ax: "(x a = x b) \<noteq> (y a = y b)"
  shows "\<exists>st'. connect_pair a b st = Inr st' \<and> map fst (fst st') = map fst (fst st) \<and> graph_ok (fst st')"
proof -
  obtain na nb where n: "map_of (fst st) a = Some na" "map_of (fst st) b = Some nb"
    using a b by (auto simp: PointGraph_has_def)
  from connect_Inr[OF n] obtain g1 where
    g1: "PointGraph_connect (fst st) a b = Inr g1" "map fst g1 = map fst (fst st)"
      "\<forall>p q. adj_map g1 p q = (if p = a \<and> q = b then Some (distance a b) else adj_map (fst st) p q)"
      "\<forall>p n. map_of g1 p = Some n \<longrightarrow>
       (\<exists>n0. map_of (fst st) p = Some n0 \<and>
          (distinct (map fst (adjacentNodes n0)) \<longrightarrow> distinct (map fst (adjacentNodes n))))"
    by blast
  have "map_of g1 b \<noteq> None" "map_of g1 a \<noteq> None"
    using n map_of_keys_eq[OF g1(2), of a] map_of_keys_eq[OF g1(2), of b] by simp_all
  then obtain na1 nb1 where n1: "map_of g1 b = Some nb1" "map_of g1 a = Some na1"
    by auto
  from connect_Inr[OF n1] obtain g2 where
    g2: "PointGraph_connect g1 b a = Inr g2" "map fst g2 = map fst g1"
      "\<forall>p q. adj_map g2 p q = (if p = b \<and> q = a then Some (distance b a) else adj_map g1 p q)"
      "\<forall>p n. map_of g2 p = Some n \<longrightarrow>
       (\<exists>n0. map_of g1 p = Some n0 \<and>
          (distinct (map fst (adjacentNodes n0)) \<longrightarrow> distinct (map fst (adjacentNodes n))))"
    by blast
  have cp: "connect_pair a b st = Inr (g2, snd st @ [(a, b)])"
    using g1(1) g2(1) by (simp add: connect_pair_def)
  have am: "\<forall>p q. adj_map g2 p q =
      (if (p = b \<and> q = a) \<or> (p = a \<and> q = b) then Some (distance a b) else adj_map (fst st) p q)"
  proof (intro allI)
    fix p q
    show "adj_map g2 p q =
      (if (p = b \<and> q = a) \<or> (p = a \<and> q = b) then Some (distance a b) else adj_map (fst st) p q)"
    proof (cases "p = b \<and> q = a")
      case True
      have "adj_map g2 p q = Some (distance b a)"
        using g2(3)[rule_format, of p q] True by (simp only: if_True simp_thms)
      also have "distance b a = distance a b" by (rule distance_commute)
      finally show ?thesis using True by (simp only: if_True simp_thms)
    next
      case False
      have "adj_map g2 p q = adj_map g1 p q"
        using g2(3)[rule_format, of p q] False by (simp only: if_False simp_thms)
      also have "\<dots> = (if p = a \<and> q = b then Some (distance a b) else adj_map (fst st) p q)"
        using g1(3)[rule_format, of p q] .
      finally show ?thesis using False by (simp only: if_False simp_thms)
    qed
  qed
  have "distinct (map fst (fst st))" using ok unfolding graph_ok_def by blast
  then have d1: "distinct (map fst g2)" using g1(2) g2(2) by simp
  have d2: "\<forall>p n. map_of g2 p = Some n \<longrightarrow> distinct (map fst (adjacentNodes n))"
  proof (intro allI impI)
    fix p n
    assume "map_of g2 p = Some n"
    with g2(4) obtain n1 where n1: "map_of g1 p = Some n1"
      "distinct (map fst (adjacentNodes n1)) \<longrightarrow> distinct (map fst (adjacentNodes n))" by blast
    with g1(4) obtain n0 where n0: "map_of (fst st) p = Some n0"
      "distinct (map fst (adjacentNodes n0)) \<longrightarrow> distinct (map fst (adjacentNodes n1))" by blast
    from ok n0(1) have "distinct (map fst (adjacentNodes n0))" unfolding graph_ok_def by blast
    with n0(2) n1(2) show "distinct (map fst (adjacentNodes n))" by simp
  qed
  have old: "\<forall>p q w. adj_map (fst st) p q = Some w \<longrightarrow>
        w = distance p q \<and> ((x p = x q) \<noteq> (y p = y q)) \<and> adj_map (fst st) q p = Some w"
    using ok unfolding graph_ok_def by blast
  have d3: "\<forall>p q w. adj_map g2 p q = Some w \<longrightarrow>
        w = distance p q \<and> ((x p = x q) \<noteq> (y p = y q)) \<and> adj_map g2 q p = Some w"
  proof (intro allI impI)
    fix p q w
    assume h: "adj_map g2 p q = Some w"
    show "w = distance p q \<and> ((x p = x q) \<noteq> (y p = y q)) \<and> adj_map g2 q p = Some w"
    proof (cases "(p = b \<and> q = a) \<or> (p = a \<and> q = b)")
      case True
      have 1: "adj_map g2 p q = Some (distance a b)"
        using am[rule_format, of p q] True by (simp only: if_True)
      have c: "(q = b \<and> p = a) \<or> (q = a \<and> p = b)" using True by blast
      have 2: "adj_map g2 q p = Some (distance a b)"
        using am[rule_format, of q p] c by (simp only: if_True)
      have w: "w = distance a b" using h 1 by simp
      from True have 3: "distance p q = distance a b"
        using distance_commute[of b a] by blast
      from True have 4: "(x p = x q) \<noteq> (y p = y q)"
        using ax by (metis (full_types))
      from w 2 3 4 show ?thesis by simp
    next
      case False
      then have "adj_map (fst st) p q = Some w"
        using h am[rule_format, of p q] by (simp only: if_False)
      with old have o: "w = distance p q" "(x p = x q) \<noteq> (y p = y q)" "adj_map (fst st) q p = Some w"
        by blast+
      have c: "\<not> ((q = b \<and> p = a) \<or> (q = a \<and> p = b))" using False by blast
      have "adj_map g2 q p = Some w"
        using am[rule_format, of q p] c o(3) by (simp only: if_False)
      with o show ?thesis by simp
    qed
  qed
  have "graph_ok g2" unfolding graph_ok_def using d1 d2 d3 by blast
  with cp g1(2) g2(2) show ?thesis by simp
qed

lemma createGraph_cell_ok:
  assumes ok: "graph_ok (fst st)"
    and dx: "distinct hotXs" and dy: "distinct hotYs"
    and i: "i < length hotYs" and j: "j < length hotXs"
  shows "\<exists>st'. createGraph_cell hotXs hotYs i j st = Inr st' \<and>
           map fst (fst st') = map fst (fst st) \<and> graph_ok (fst st')"
proof (cases "PointGraph_has (fst st) (makePt (hotXs ! j) (hotYs ! i))")
  case False
  then show ?thesis using ok by (simp add: createGraph_cell_def)
next
  case True
  let ?b = "makePt (hotXs ! j) (hotYs ! i)"
  let ?a1 = "makePt (hotXs ! (j - 1)) (hotYs ! i)"
  let ?a2 = "makePt (hotXs ! j) (hotYs ! (i - 1))"
  let ?s1 = "if j > 0 then (if PointGraph_has (fst st) ?a1 then connect_pair ?a1 ?b st else Inr st)
             else Inr st"
  have 1: "\<exists>st1. ?s1 = Inr st1 \<and> map fst (fst st1) = map fst (fst st) \<and> graph_ok (fst st1)"
  proof (cases "j > 0 \<and> PointGraph_has (fst st) ?a1")
    case False
    then have "?s1 = Inr st" by auto
    then show ?thesis using ok by simp
  next
    case t: True
    then have "0 < j" by simp
    then have "hotXs ! (j - 1) \<noteq> hotXs ! j"
      using dx j by (simp add: nth_eq_iff_index_eq)
    then have "(x ?a1 = x ?b) \<noteq> (y ?a1 = y ?b)" by (simp add: makePt_def)
    from connect_pair_ok[OF ok _ True this] t show ?thesis by simp
  qed
  then obtain st1 where st1: "?s1 = Inr st1" "map fst (fst st1) = map fst (fst st)" "graph_ok (fst st1)"
    by blast
  let ?s2 = "if i > 0 then (if PointGraph_has (fst st1) ?a2 then connect_pair ?a2 ?b st1 else Inr st1)
             else Inr st1"
  have b1: "PointGraph_has (fst st1) ?b" using True has_keys_eq[OF st1(2)] by simp
  have 2: "\<exists>st2. ?s2 = Inr st2 \<and> map fst (fst st2) = map fst (fst st1) \<and> graph_ok (fst st2)"
  proof (cases "i > 0 \<and> PointGraph_has (fst st1) ?a2")
    case False
    then have "?s2 = Inr st1" by auto
    then show ?thesis using st1(3) by simp
  next
    case t: True
    then have "0 < i" by simp
    then have "hotYs ! (i - 1) \<noteq> hotYs ! i"
      using dy i by (simp add: nth_eq_iff_index_eq)
    then have "(x ?a2 = x ?b) \<noteq> (y ?a2 = y ?b)" by (simp add: makePt_def)
    from connect_pair_ok[OF st1(3) _ b1 this] t show ?thesis by simp
  qed
  have "createGraph_cell hotXs hotYs i j st = ?s2"
    unfolding createGraph_cell_def Let_def
    by (simp only: True not_True_eq_False if_False st1(1) sum.case)
  with 2 st1(2) show ?thesis by auto
qed

lemma fold_err_invariant:
  assumes "\<And>a s. a \<in> set as \<Longrightarrow> P s \<Longrightarrow> \<exists>s'. f a s = Inr s' \<and> P s'"
    and "P s"
  shows "\<exists>s'. fold_err f as s = Inr s' \<and> P s'"
  using assms
proof (induction as arbitrary: s)
  case Nil
  then show ?case by simp
next
  case (Cons a as)
  from Cons.prems(1)[of a s] Cons.prems(2) obtain s1 where s1: "f a s = Inr s1" "P s1" by auto
  from Cons.IH[of s1] Cons.prems(1) s1(2) obtain s' where "fold_err f as s1 = Inr s'" "P s'"
    by auto
  with s1 show ?case by simp
qed


lemma graph_ok_no_edges:
  "distinct (map fst g) \<Longrightarrow> (\<forall>p n. map_of g p = Some n \<longrightarrow> adjacentNodes n = []) \<Longrightarrow> graph_ok g"
  unfolding graph_ok_def adj_map_def by (auto split: option.splits)

lemma PointGraph_add_props:
  assumes "distinct (map fst g)" "\<forall>p n. map_of g p = Some n \<longrightarrow> adjacentNodes n = []"
  shows "distinct (map fst (PointGraph_add g p))"
    and "\<forall>q n. map_of (PointGraph_add g p) q = Some n \<longrightarrow> adjacentNodes n = []"
    and "set (map fst (PointGraph_add g p)) = insert p (set (map fst g))"
proof -
  show "distinct (map fst (PointGraph_add g p))"
    using assms(1) by (auto simp: PointGraph_add_def map_of_eq_None_iff split: option.splits)
  show "\<forall>q n. map_of (PointGraph_add g p) q = Some n \<longrightarrow> adjacentNodes n = []"
    using assms(2)
    by (auto simp: PointGraph_add_def new_PointNode_def map_add_def split: option.splits if_splits)
  show "set (map fst (PointGraph_add g p)) = insert p (set (map fst g))"
    by (auto simp: PointGraph_add_def rev_image_eqI dest!: map_of_SomeD split: option.splits)
qed

lemma createGraph_collect_fold:
  assumes "fold (\<lambda>p (hotXs, hotYs, graph).
             (if x p \<in> set hotXs then hotXs else hotXs @ [x p],
              if y p \<in> set hotYs then hotYs else hotYs @ [y p],
              PointGraph_add graph p)) spots (hx0, hy0, g0) = (hx, hy, g)"
    and "distinct hx0" "distinct hy0" "distinct (map fst g0)"
    and "\<forall>p n. map_of g0 p = Some n \<longrightarrow> adjacentNodes n = []"
  shows "distinct hx \<and> distinct hy \<and> distinct (map fst g) \<and>
         (\<forall>p n. map_of g p = Some n \<longrightarrow> adjacentNodes n = []) \<and>
         set (map fst g) = set (map fst g0) \<union> set spots"
  using assms
proof (induction spots arbitrary: hx0 hy0 g0)
  case Nil
  then show ?case by simp
next
  case (Cons p spots)
  let ?hx1 = "if x p \<in> set hx0 then hx0 else hx0 @ [x p]"
  let ?hy1 = "if y p \<in> set hy0 then hy0 else hy0 @ [y p]"
  let ?g1 = "PointGraph_add g0 p"
  note a = PointGraph_add_props[OF Cons.prems(4) Cons.prems(5), of p]
  have f: "fold (\<lambda>p (hotXs, hotYs, graph).
             (if x p \<in> set hotXs then hotXs else hotXs @ [x p],
              if y p \<in> set hotYs then hotYs else hotYs @ [y p],
              PointGraph_add graph p)) spots (?hx1, ?hy1, ?g1) = (hx, hy, g)"
    using Cons.prems(1) by simp
  have dx: "distinct ?hx1" using Cons.prems(2) by simp
  have dy: "distinct ?hy1" using Cons.prems(3) by simp
  from Cons.IH[OF f dx dy a(1) a(2)] a(3) show ?case by auto
qed

lemma createGraph_collect_props:
  assumes "createGraph_collect spots = (hx, hy, g)"
  shows "distinct hx" "distinct hy" "graph_ok g" "set (map fst g) = set spots"
proof -
  from assms have "fold (\<lambda>p (hotXs, hotYs, graph).
             (if x p \<in> set hotXs then hotXs else hotXs @ [x p],
              if y p \<in> set hotYs then hotYs else hotYs @ [y p],
              PointGraph_add graph p)) spots ([], [], []) = (hx, hy, g)"
    by (simp add: createGraph_collect_def)
  from createGraph_collect_fold[OF this] have
    r: "distinct hx \<and> distinct hy \<and> distinct (map fst g) \<and>
         (\<forall>p n. map_of g p = Some n \<longrightarrow> adjacentNodes n = []) \<and>
         set (map fst g) = set (map fst ([]::PointGraph)) \<union> set spots" by simp
  then show "distinct hx" "distinct hy" "set (map fst g) = set spots" by simp_all
  from r show "graph_ok g" using graph_ok_no_edges by blast
qed

lemma createGraph_ok:
  "\<exists>g conns. createGraph spots = Inr (g, conns) \<and> graph_ok g \<and> set (map fst g) = set spots"
proof -
  obtain hx hy g0 where c: "createGraph_collect spots = (hx, hy, g0)"
    by (cases "createGraph_collect spots") auto
  note p = createGraph_collect_props[OF c]
  let ?P = "\<lambda>st :: PointGraph \<times> Line list. map fst (fst st) = map fst g0 \<and> graph_ok (fst st)"
  have inner: "\<And>i st. i \<in> set [0..<length (sort hy)] \<Longrightarrow> ?P st \<Longrightarrow>
      \<exists>st'. fold_err (\<lambda>j. createGraph_cell (sort hx) (sort hy) i j) [0..<length (sort hx)] st = Inr st'
            \<and> ?P st'"
  proof -
    fix i st
    assume i: "i \<in> set [0..<length (sort hy)]" and st: "?P st"
    show "\<exists>st'. fold_err (\<lambda>j. createGraph_cell (sort hx) (sort hy) i j) [0..<length (sort hx)] st = Inr st'
            \<and> ?P st'"
    proof (rule fold_err_invariant[where P = ?P])
      fix j s
      assume j: "j \<in> set [0..<length (sort hx)]" and s: "?P s"
      have "\<exists>st'. createGraph_cell (sort hx) (sort hy) i j s = Inr st' \<and>
           map fst (fst st') = map fst (fst s) \<and> graph_ok (fst st')"
        using createGraph_cell_ok[of s "sort hx" "sort hy" i j] s p(1) p(2) i j by simp
      then show "\<exists>s'. createGraph_cell (sort hx) (sort hy) i j s = Inr s' \<and> ?P s'"
        using s by auto
    next
      show "?P st" by (rule st)
    qed
  qed
  have "\<exists>st'. fold_err (\<lambda>i. fold_err (\<lambda>j. createGraph_cell (sort hx) (sort hy) i j) [0..<length (sort hx)])
            [0..<length (sort hy)] (g0, []) = Inr st' \<and> ?P st'"
  proof (rule fold_err_invariant[where P = ?P])
    show "?P (g0, [])" using p(3) by simp
  qed (rule inner)
  then obtain st' where st': "createGraph spots = Inr st'" "map fst (fst st') = map fst g0" "graph_ok (fst st')"
    using c by (auto simp: createGraph_def Let_def)
  have "set (map fst (fst st')) = set spots" using st'(2) p(4) by simp
  with st'(1) st'(3) show ?thesis by (cases st') auto
qed

lemma graph_edges_iff:
  "(a, b, w) \<in> set (graph_edges g) \<longleftrightarrow> (\<exists>n. (a, n) \<in> set g \<and> (b, w) \<in> set (adjacentNodes n))"
  by (force simp: graph_edges_def)

lemma graph_ok_edges:
  assumes ok: "graph_ok g" and e: "(a, b, w) \<in> set (graph_edges g)"
  shows "(x a = x b) \<noteq> (y a = y b)" "w = distance a b" "(b, a, w) \<in> set (graph_edges g)"
proof -
  from e obtain n where n: "(a, n) \<in> set g" "(b, w) \<in> set (adjacentNodes n)"
    by (auto simp: graph_edges_iff)
  have dk: "distinct (map fst g)" using ok unfolding graph_ok_def by blast
  then have ma: "map_of g a = Some n" using n(1) by simp
  then have "distinct (map fst (adjacentNodes n))" using ok unfolding graph_ok_def by blast
  then have "map_of (adjacentNodes n) b = Some w" using n(2) by simp
  then have am: "adj_map g a b = Some w" using ma by (simp add: adj_map_def)
  have all: "\<forall>p q w. adj_map g p q = Some w \<longrightarrow>
        w = distance p q \<and> ((x p = x q) \<noteq> (y p = y q)) \<and> adj_map g q p = Some w"
    using ok unfolding graph_ok_def by blast
  from all am show "(x a = x b) \<noteq> (y a = y b)" by blast
  from all am show "w = distance a b" by blast
  from all am have "adj_map g b a = Some w" by blast
  then obtain m where "map_of g b = Some m" "map_of (adjacentNodes m) a = Some w"
    by (auto simp: adj_map_def split: option.splits)
  then have "(b, m) \<in> set g" "(a, w) \<in> set (adjacentNodes m)"
    by (auto dest: map_of_SomeD)
  then show "(b, a, w) \<in> set (graph_edges g)" by (auto simp: graph_edges_iff)
qed

text \<open>
  Claim C4. For every list of spots \<open>createGraph\<close> returns a graph (it never throws); the
  graph has one node per different spot and no node twice; every edge joins two points
  that share exactly one coordinate, its weight is the distance of the two points, and
  the opposite edge is in the graph with the same weight.
\<close>

theorem createGraph_orthogonal_undirected:
  "\<exists>g conns. createGraph spots = Inr (g, conns) \<and>
     distinct (map fst g) \<and> set (map fst g) = set spots \<and>
     (\<forall>e \<in> set (graph_edges g).
        (case e of (a, b, w) \<Rightarrow>
           ((x a = x b) \<noteq> (y a = y b)) \<and> w = distance a b \<and> (b, a, w) \<in> set (graph_edges g)))"
proof -
  from createGraph_ok[of spots] obtain g conns where
    g: "createGraph spots = Inr (g, conns)" "graph_ok g" "set (map fst g) = set spots" by blast
  have dk: "distinct (map fst g)" using g(2) unfolding graph_ok_def by blast
  have "\<forall>e \<in> set (graph_edges g).
        (case e of (a, b, w) \<Rightarrow>
           ((x a = x b) \<noteq> (y a = y b)) \<and> w = distance a b \<and> (b, a, w) \<in> set (graph_edges g))"
    using graph_ok_edges[OF g(2)] by auto
  with g dk show ?thesis by blast
qed

lemmas createGraph_eval =
  createGraph_def createGraph_collect_def PointGraph_add_def new_PointNode_def
  createGraph_cell_def PointGraph_has_def connect_pair_def PointGraph_connect_def
  PointGraph_get_def distance_def makePt_def Let_def

theorem createGraph_orthogonal_undirected_witness:
  "\<exists>g conns. createGraph [makePt 0 0, makePt 10 0, makePt 10 5] = Inr (g, conns) \<and>
     (makePt 10 0, makePt 0 0, 10) \<in> set (graph_edges g)"
proof -
  let ?spots = "[makePt 0 0, makePt 10 0, makePt 10 5]"
  from createGraph_orthogonal_undirected[of ?spots] obtain g conns where
    g: "createGraph ?spots = Inr (g, conns)"
    and e: "\<forall>e \<in> set (graph_edges g).
        (case e of (a, b, w) \<Rightarrow>
           ((x a = x b) \<noteq> (y a = y b)) \<and> w = distance a b \<and> (b, a, w) \<in> set (graph_edges g))"
    by blast
  have "createGraph ?spots =
    Inr ([(makePt 0 0, \<lparr>node_distance = MAX_SAFE_INTEGER, node_shortestPath = [],
                        adjacentNodes = [(makePt 10 0, 10)]\<rparr>),
          (makePt 10 0, \<lparr>node_distance = MAX_SAFE_INTEGER, node_shortestPath = [],
                         adjacentNodes = [(makePt 0 0, 10), (makePt 10 5, 5)]\<rparr>),
          (makePt 10 5, \<lparr>node_distance = MAX_SAFE_INTEGER, node_shortestPath = [],
                         adjacentNodes = [(makePt 10 0, 5)]\<rparr>)],
         [(makePt 0 0, makePt 10 0), (makePt 10 0, makePt 10 5)])"
    by (simp add: createGraph_eval)
  with g have m: "(makePt 0 0, makePt 10 0, 10) \<in> set (graph_edges g)"
    by (auto simp: graph_edges_def)
  from bspec[OF e m] have "(makePt 10 0, makePt 0 0, 10) \<in> set (graph_edges g)" by simp
  with g show ?thesis by blast
qed

section \<open>The search\<close>

lemma relax_cost_ge: "0 \<le> w \<Longrightarrow> node_distance (node_of g c) \<le> relax_cost g c v w"
  by (simp add: relax_cost_def)

lemma calculateMinimumDistance_alt:
  "calculateMinimumDistance g v w c =
     (if relax_cost g c v w < node_distance (node_of g v) then
        AList.map_entry v
          (\<lambda>n. n\<lparr>node_distance := relax_cost g c v w,
                  node_shortestPath := node_shortestPath (node_of g c) @ [c]\<rparr>) g
      else g)"
  by (simp add: calculateMinimumDistance_def relax_cost_def Let_def)

lemma node_of_relax:
  "node_of (calculateMinimumDistance g v w c) p =
     (if p = v \<and> map_of g v \<noteq> None \<and> relax_cost g c v w < node_distance (node_of g v) then
        (node_of g v)\<lparr>node_distance := relax_cost g c v w,
                       node_shortestPath := node_shortestPath (node_of g c) @ [c]\<rparr>
      else node_of g p)"
  by (auto simp: calculateMinimumDistance_alt node_of_map_entry)

lemma relax_adjacentNodes:
  "adjacentNodes (node_of (calculateMinimumDistance g v w c) p) = adjacentNodes (node_of g p)"
  by (simp add: node_of_relax)

lemma relax_distance_le:
  "node_distance (node_of (calculateMinimumDistance g v w c) p) \<le> node_distance (node_of g p)"
  by (simp add: node_of_relax)

lemma getLowest_fold_lt:
  "fst (fold (\<lambda>node (ln, ld). let nd = node_distance (node_of g node) in
                  if nd < ld then (Some node, nd) else (ln, ld)) U (ln0, ld0)) = Some c
   \<Longrightarrow> ld0 \<le> MAX_SAFE_INTEGER
   \<Longrightarrow> (ln0 = Some c0 \<longrightarrow> node_distance (node_of g c0) < MAX_SAFE_INTEGER)
   \<Longrightarrow> (ln0 = None \<or> ln0 = Some c0)
   \<Longrightarrow> node_distance (node_of g c) < MAX_SAFE_INTEGER"
proof (induction U arbitrary: ln0 ld0 c0)
  case Nil
  then show ?case by auto
next
  case (Cons a U)
  show ?case
  proof (cases "node_distance (node_of g a) < ld0")
    case True
    with Cons.prems(1) have f: "fst (fold (\<lambda>node (ln, ld). let nd = node_distance (node_of g node) in
                  if nd < ld then (Some node, nd) else (ln, ld)) U (Some a, node_distance (node_of g a))) = Some c"
      by (simp add: Let_def)
    show ?thesis
      by (rule Cons.IH[OF f, of a]) (use True Cons.prems(2) in auto)
  next
    case False
    with Cons.prems(1) have f: "fst (fold (\<lambda>node (ln, ld). let nd = node_distance (node_of g node) in
                  if nd < ld then (Some node, nd) else (ln, ld)) U (ln0, ld0)) = Some c"
      by (simp add: Let_def)
    show ?thesis
      by (rule Cons.IH[OF f Cons.prems(2) Cons.prems(3) Cons.prems(4)])
  qed
qed

lemma getLowestDistanceNode_lt:
  "getLowestDistanceNode g U = Some c \<Longrightarrow> node_distance (node_of g c) < MAX_SAFE_INTEGER"
  unfolding getLowestDistanceNode_def
  using getLowest_fold_lt[of g U None MAX_SAFE_INTEGER c] by simp

lemma adj_shape_node_of:
  "adj_shape g1 = adj_shape g \<Longrightarrow> adjacentNodes (node_of g1 p) = adjacentNodes (node_of g p)"
proof -
  assume a: "adj_shape g1 = adj_shape g"
  have m: "\<And>h. map_of (adj_shape h) p = map_option adjacentNodes (map_of h p)"
  proof -
    fix h :: PointGraph
    show "map_of (adj_shape h) p = map_option adjacentNodes (map_of h p)"
      by (induction h) (auto simp: adj_shape_def)
  qed
  from a have "map_option adjacentNodes (map_of g1 p) = map_option adjacentNodes (map_of g p)"
    using m by metis
  then show ?thesis
    by (cases "map_of g1 p"; cases "map_of g p") (auto simp: node_of_def)
qed

lemma settle_step_rule:
  assumes st: "settle_step g U S c = (g1, U1)"
    and init: "I g"
    and lt: "node_distance (node_of g c) < MAX_SAFE_INTEGER"
    and step: "\<And>h v w. I h \<Longrightarrow> v \<notin> S \<Longrightarrow> node_distance (node_of h c) < MAX_SAFE_INTEGER \<Longrightarrow>
        (v, w) \<in> set (adjacentNodes (node_of h c)) \<Longrightarrow> I (calculateMinimumDistance h v w c)"
  shows "I g1"
proof -
  have gen: "\<And>al h V h1 V1. fold (relax_adjacent c S) al (h, V) = (h1, V1) \<Longrightarrow>
      set al \<subseteq> set (adjacentNodes (node_of h c)) \<Longrightarrow> I h \<Longrightarrow>
      node_distance (node_of h c) < MAX_SAFE_INTEGER \<Longrightarrow> I h1"
  proof -
    fix al h V h1 V1
    show "fold (relax_adjacent c S) al (h, V) = (h1, V1) \<Longrightarrow>
      set al \<subseteq> set (adjacentNodes (node_of h c)) \<Longrightarrow> I h \<Longrightarrow>
      node_distance (node_of h c) < MAX_SAFE_INTEGER \<Longrightarrow> I h1"
    proof (induction al arbitrary: h V)
      case Nil
      then show ?case by simp
    next
      case (Cons e al)
      obtain v w where e: "e = (v, w)" by (cases e)
      show ?case
      proof (cases "v \<in> S")
        case True
        then have "relax_adjacent c S e (h, V) = (h, V)" by (simp add: relax_adjacent_def e)
        with Cons.prems(1) have "fold (relax_adjacent c S) al (h, V) = (h1, V1)" by simp
        from Cons.IH[OF this] Cons.prems show ?thesis by simp
      next
        case False
        let ?h = "calculateMinimumDistance h v w c"
        have "relax_adjacent c S e (h, V) = (?h, set_add V v)"
          using False by (simp add: relax_adjacent_def e)
        with Cons.prems(1) have f: "fold (relax_adjacent c S) al (?h, set_add V v) = (h1, V1)" by simp
        have "(v, w) \<in> set (adjacentNodes (node_of h c))" using Cons.prems(2) e by simp
        from step[OF Cons.prems(3) False Cons.prems(4) this] have i: "I ?h" .
        have a: "set al \<subseteq> set (adjacentNodes (node_of ?h c))"
          using Cons.prems(2) by (simp add: relax_adjacentNodes)
        have l: "node_distance (node_of ?h c) < MAX_SAFE_INTEGER"
          using relax_distance_le[of h v w c c] Cons.prems(4) by simp
        from Cons.IH[OF f a i l] show ?thesis .
      qed
    qed
  qed
  from st have "fold (relax_adjacent c S) (adjacentNodes (node_of g c)) (g, removeAll c U) = (g1, U1)"
    by (simp add: settle_step_def)
  from gen[OF this _ init lt] show ?thesis by simp
qed

lemma search_loop_rule:
  assumes run: "search_loop g U S = Inr g'"
    and init: "I g S"
    and mono: "\<And>h T c. I h T \<Longrightarrow> I h (insert c T)"
    and step: "\<And>h T c v w. I h (insert c T) \<Longrightarrow> v \<notin> T \<Longrightarrow>
        node_distance (node_of h c) < MAX_SAFE_INTEGER \<Longrightarrow>
        (v, w) \<in> set (adjacentNodes (node_of h c)) \<Longrightarrow>
        I (calculateMinimumDistance h v w c) (insert c T)"
  shows "\<exists>S'. I g' S'"
  using run init
proof (induction g U S rule: search_loop.induct)
  case (1 g U S)
  show ?case
  proof (cases "length U = 0")
    case True
    with "1.prems"(1) have "g' = g" by (subst (asm) search_loop.simps) simp
    with "1.prems"(2) show ?thesis by blast
  next
    case False
    show ?thesis
    proof (cases "getLowestDistanceNode g U")
      case None
      with False "1.prems"(1) show ?thesis by (subst (asm) search_loop.simps) simp
    next
      case (Some c)
      obtain g1 U1 where st: "settle_step g U S c = (g1, U1)"
        by (cases "settle_step g U S c")
      from False Some st "1.prems"(1) have r: "search_loop g1 U1 (insert c S) = Inr g'"
        by (subst (asm) search_loop.simps) simp
      have lt: "node_distance (node_of g c) < MAX_SAFE_INTEGER"
        by (rule getLowestDistanceNode_lt[OF Some])
      have i0: "I g (insert c S)" by (rule mono[OF "1.prems"(2)])
      have "I g1 (insert c S)"
        by (rule settle_step_rule[where I = "\<lambda>h. I h (insert c S)", OF st i0 lt]) (rule step)
      from "1.IH"[OF False Some st[symmetric] r this] show ?thesis .
    qed
  qed
qed

lemma nonneg_weights_relax:
  "nonneg_weights g \<Longrightarrow> nonneg_weights (calculateMinimumDistance g v w c)"
  by (simp add: nonneg_weights_def relax_adjacentNodes)

lemma relax_unchanged:
  assumes "\<not> (map_of g v \<noteq> None \<and> relax_cost g c v w < node_distance (node_of g v))"
  shows "node_of (calculateMinimumDistance g v w c) p = node_of g p"
  using assms by (auto simp: node_of_relax)

lemma chain_inv_relax:
  assumes inv: "chain_inv h (insert c T)" and nn: "nonneg_weights h"
    and v: "v \<notin> T" and e: "(v, w) \<in> set (adjacentNodes (node_of h c))"
  shows "chain_inv (calculateMinimumDistance h v w c) (insert c T)"
proof (cases "map_of h v \<noteq> None \<and> relax_cost h c v w < node_distance (node_of h v)")
  case False
  then have "\<And>p. node_of (calculateMinimumDistance h v w c) p = node_of h p"
    by (rule relax_unchanged)
  with inv show ?thesis by (simp add: chain_inv_def)
next
  case True
  let ?h = "calculateMinimumDistance h v w c"
  have w: "0 \<le> w" using nn e unfolding nonneg_weights_def by blast
  have ge: "node_distance (node_of h c) \<le> relax_cost h c v w" by (rule relax_cost_ge[OF w])
  have vc: "v \<noteq> c" using True ge by auto
  have nv: "node_of ?h v = (node_of h v)\<lparr>node_distance := relax_cost h c v w,
                       node_shortestPath := node_shortestPath (node_of h c) @ [c]\<rparr>"
    using True by (simp add: node_of_relax)
  have no: "\<And>p. p \<noteq> v \<Longrightarrow> node_of ?h p = node_of h p" by (simp add: node_of_relax)
  show ?thesis
    unfolding chain_inv_def
  proof (intro allI impI)
    fix p
    assume ne: "node_shortestPath (node_of ?h p) \<noteq> []"
    let ?u = "last (node_shortestPath (node_of ?h p))"
    show "?u \<in> insert c T \<and>
        node_shortestPath (node_of ?h p) = node_shortestPath (node_of ?h ?u) @ [?u] \<and>
        node_distance (node_of ?h ?u) \<le> node_distance (node_of ?h p)"
    proof (cases "p = v")
      case True
      then have u: "?u = c" using nv by simp
      have "node_of ?h c = node_of h c" using vc no by simp
      then show ?thesis using True u nv ge by simp
    next
      case False
      then have pp: "node_of ?h p = node_of h p" by (rule no)
      with ne have ne': "node_shortestPath (node_of h p) \<noteq> []" by simp
      let ?u' = "last (node_shortestPath (node_of h p))"
      from inv ne' have i: "?u' \<in> insert c T"
        "node_shortestPath (node_of h p) = node_shortestPath (node_of h ?u') @ [?u']"
        "node_distance (node_of h ?u') \<le> node_distance (node_of h p)"
        unfolding chain_inv_def by blast+
      have "?u' \<noteq> v" using i(1) v vc by auto
      then have "node_of ?h ?u' = node_of h ?u'" by (rule no)
      with i pp show ?thesis by simp
    qed
  qed
qed

lemma chain_inv_mono: "chain_inv h T \<Longrightarrow> chain_inv h (insert c T)"
  unfolding chain_inv_def by blast

lemma chain_inv_sorted:
  assumes "chain_inv g S"
  shows "sorted (map (\<lambda>p. node_distance (node_of g p)) (node_shortestPath (node_of g v) @ [v]))"
proof (induction "length (node_shortestPath (node_of g v))" arbitrary: v rule: less_induct)
  case less
  show ?case
  proof (cases "node_shortestPath (node_of g v) = []")
    case True
    then show ?thesis by simp
  next
    case False
    let ?u = "last (node_shortestPath (node_of g v))"
    from assms False have i:
        "node_shortestPath (node_of g v) = node_shortestPath (node_of g ?u) @ [?u]"
        "node_distance (node_of g ?u) \<le> node_distance (node_of g v)"
      unfolding chain_inv_def by blast+
    have "length (node_shortestPath (node_of g ?u)) < length (node_shortestPath (node_of g v))"
      by (subst (2) i(1)) simp
    from less[OF this] have s: "sorted (map (\<lambda>p. node_distance (node_of g p))
        (node_shortestPath (node_of g ?u) @ [?u]))" .
    have "sorted (map (\<lambda>p. node_distance (node_of g p))
        ((node_shortestPath (node_of g ?u) @ [?u]) @ [v]))"
      using s i(2) by (auto simp: sorted_append)
    then show ?thesis using i(1) by simp
  qed
qed

lemma node_of_in_graph:
  "map_of g p = None \<Longrightarrow> node_of g p = new_PointNode"
  "map_of g p = Some n \<Longrightarrow> node_of g p = n \<and> (p, n) \<in> set g"
  by (auto simp: node_of_def dest: map_of_SomeD)

lemma nonneg_weights_edges:
  assumes "\<forall>e \<in> set (graph_edges g). 0 \<le> snd (snd e)"
  shows "nonneg_weights g"
  unfolding nonneg_weights_def
proof (intro allI impI)
  fix p v w
  assume a: "(v, w) \<in> set (adjacentNodes (node_of g p))"
  show "0 \<le> w"
  proof (cases "map_of g p")
    case None
    with a show ?thesis by (simp add: node_of_in_graph new_PointNode_def)
  next
    case (Some n)
    with a have "(p, n) \<in> set g" "(v, w) \<in> set (adjacentNodes n)"
      by (simp_all add: node_of_in_graph)
    then have "(p, v, w) \<in> set (graph_edges g)" by (force simp: graph_edges_def)
    with assms show ?thesis by force
  qed
qed

lemma search_chain_inv:
  assumes fresh: "\<forall>n \<in> snd ` set g. node_shortestPath n = []"
    and nonneg: "\<forall>e \<in> set (graph_edges g). 0 \<le> snd (snd e)"
    and run: "calculateShortestPathFromSource g source = Inr g'"
  shows "\<exists>S'. chain_inv g' S'"
proof -
  let ?g0 = "AList.map_entry source (\<lambda>n. n\<lparr>node_distance := 0\<rparr>) g"
  have sp0: "\<And>p. node_shortestPath (node_of g p) = []"
  proof -
    fix p
    show "node_shortestPath (node_of g p) = []"
    proof (cases "map_of g p")
      case None
      then show ?thesis by (simp add: node_of_in_graph new_PointNode_def)
    next
      case (Some n)
      then have "node_of g p = n" "(p, n) \<in> set g"
        by (simp_all add: node_of_in_graph)
      then have "node_of g p = n" "n \<in> snd ` set g" by force+
      with fresh show ?thesis by blast
    qed
  qed
  have "\<And>p. node_shortestPath (node_of ?g0 p) = []"
    using sp0 by (simp add: node_of_map_entry)
  then have c0: "chain_inv ?g0 {}" by (simp add: chain_inv_def)
  have "nonneg_weights g" by (rule nonneg_weights_edges[OF nonneg])
  then have n0: "nonneg_weights ?g0"
    by (simp add: nonneg_weights_def node_of_map_entry)
  from run have r: "search_loop ?g0 [source] {} = Inr g'"
    by (simp add: calculateShortestPathFromSource_def)
  have "\<exists>S'. chain_inv g' S' \<and> nonneg_weights g'"
  proof (rule search_loop_rule[where I = "\<lambda>h T. chain_inv h T \<and> nonneg_weights h", OF r])
    show "chain_inv ?g0 {} \<and> nonneg_weights ?g0" using c0 n0 by simp
  next
    fix h T c
    assume "chain_inv h T \<and> nonneg_weights h"
    then show "chain_inv h (insert c T) \<and> nonneg_weights h" using chain_inv_mono by blast
  next
    fix h T c v w
    assume "chain_inv h (insert c T) \<and> nonneg_weights h" "v \<notin> T"
      "(v, w) \<in> set (adjacentNodes (node_of h c))"
    then show "chain_inv (calculateMinimumDistance h v w c) (insert c T) \<and>
        nonneg_weights (calculateMinimumDistance h v w c)"
      using chain_inv_relax nonneg_weights_relax by blast
  qed
  then show ?thesis by blast
qed

text \<open>
  Claim C9. On a graph whose nodes have no recorded path yet (as \<open>createGraph\<close> builds
  it) and whose edge weights are not negative, when the search from a source returns,
  the recorded distances along the recorded path of any node \<open>v\<close>, followed by \<open>v\<close> itself,
  never decrease.
\<close>

theorem search_chain_distances_nondecreasing:
  assumes fresh: "\<forall>n \<in> snd ` set g. node_shortestPath n = []"
    and nonneg: "\<forall>e \<in> set (graph_edges g). 0 \<le> snd (snd e)"
    and run: "calculateShortestPathFromSource g source = Inr g'"
  shows "sorted (map (\<lambda>p. node_distance (node_of g' p)) (node_shortestPath (node_of g' v) @ [v]))"
proof -
  from search_chain_inv[OF fresh nonneg run] obtain S' where "chain_inv g' S'" by blast
  then show ?thesis by (rule chain_inv_sorted)
qed

lemmas search_eval =
  calculateShortestPathFromSource_def search_loop.simps settle_step_def
  relax_adjacent_def set_add_def getLowestDistanceNode_def calculateMinimumDistance_def
  node_of_def inferPathDirection_def directionOfNodes_def directionOf_def makePt_def Let_def
  MAX_SAFE_INTEGER_def

theorem search_chain_distances_nondecreasing_witness:
  "sorted (map (\<lambda>p. node_distance (node_of
       [(makePt 0 0, \<lparr>node_distance = 0, node_shortestPath = [],
                       adjacentNodes = [(makePt 10 0, 10)]\<rparr>),
        (makePt 10 0, \<lparr>node_distance = 10, node_shortestPath = [makePt 0 0],
                        adjacentNodes = [(makePt 0 0, 10), (makePt 10 5, 5)]\<rparr>),
        (makePt 10 5, \<lparr>node_distance = 51, node_shortestPath = [makePt 0 0, makePt 10 0],
                        adjacentNodes = [(makePt 10 0, 5)]\<rparr>)] p))
     [makePt 0 0, makePt 10 0, makePt 10 5])"
proof -
  let ?g = "[(makePt 0 0, \<lparr>node_distance = MAX_SAFE_INTEGER, node_shortestPath = [],
                        adjacentNodes = [(makePt 10 0, 10)]\<rparr>),
          (makePt 10 0, \<lparr>node_distance = MAX_SAFE_INTEGER, node_shortestPath = [],
                         adjacentNodes = [(makePt 0 0, 10), (makePt 10 5, 5)]\<rparr>),
          (makePt 10 5, \<lparr>node_distance = MAX_SAFE_INTEGER, node_shortestPath = [],
                         adjacentNodes = [(makePt 10 0, 5)]\<rparr>)]"
  let ?g' = "[(makePt 0 0, \<lparr>node_distance = 0, node_shortestPath = [],
                       adjacentNodes = [(makePt 10 0, 10)]\<rparr>),
        (makePt 10 0, \<lparr>node_distance = 10, node_shortestPath = [makePt 0 0],
                        adjacentNodes = [(makePt 0 0, 10), (makePt 10 5, 5)]\<rparr>),
        (makePt 10 5, \<lparr>node_distance = 51, node_shortestPath = [makePt 0 0, makePt 10 0],
                        adjacentNodes = [(makePt 10 0, 5)]\<rparr>)]"
  have fresh: "\<forall>n \<in> snd ` set ?g. node_shortestPath n = []" by simp
  have nonneg: "\<forall>e \<in> set (graph_edges ?g). 0 \<le> snd (snd e)" by (simp add: graph_edges_def)
  have run: "calculateShortestPathFromSource ?g (makePt 0 0) = Inr ?g'"
    by (simp add: search_eval)
  have "node_shortestPath (node_of ?g' (makePt 10 5)) @ [makePt 10 5]
      = [makePt 0 0, makePt 10 0, makePt 10 5]"
    by (simp add: node_of_def makePt_def)
  with search_chain_distances_nondecreasing[OF fresh nonneg run, of "makePt 10 5"]
  show ?thesis by simp
qed

section \<open>The path of the destination\<close>

lemma distance_nonneg: "0 \<le> distance a b"
  by (simp add: distance_def)

lemma distance_pos: "a \<noteq> b \<Longrightarrow> 0 < distance a b"
proof -
  assume "a \<noteq> b"
  then have "x b - x a \<noteq> 0 \<or> y b - y a \<noteq> 0" by (auto simp: point_eq_iff)
  then have "0 < (x b - x a)\<^sup>2 + (y b - y a)\<^sup>2"
    by (metis add_pos_nonneg add_nonneg_pos zero_le_power2 zero_less_power2)
  then show ?thesis by (simp add: distance_def)
qed

lemma relax_cost_gt:
  "0 < w \<Longrightarrow> node_distance (node_of g c) < relax_cost g c v w"
  by (simp add: relax_cost_def add_pos_nonneg)

lemma path_inv_relax:
  assumes inv: "path_inv h src"
    and lt: "node_distance (node_of h c) < MAX_SAFE_INTEGER"
    and e: "(v, w) \<in> set (adjacentNodes (node_of h c))"
  shows "path_inv (calculateMinimumDistance h v w c) src"
proof (cases "map_of h v \<noteq> None \<and> relax_cost h c v w < node_distance (node_of h v)")
  case False
  then have eq: "\<And>p. node_of (calculateMinimumDistance h v w c) p = node_of h p"
    by (rule relax_unchanged)
  show ?thesis unfolding path_inv_def eq using inv[unfolded path_inv_def] .
next
  case True
  let ?h = "calculateMinimumDistance h v w c"
  let ?sp = "\<lambda>g p. node_shortestPath (node_of g p)"
  let ?d = "\<lambda>g p. node_distance (node_of g p)"
  note P = inv[unfolded path_inv_def]
  note P1 = conjunct1[OF P] and R1 = conjunct2[OF P]
  note P2 = conjunct1[OF R1] and R2 = conjunct2[OF R1]
  note P3 = conjunct1[OF R2] and R3 = conjunct2[OF R2]
  note P4 = conjunct1[OF R3] and R4 = conjunct2[OF R3]
  note P5 = conjunct1[OF R4] and R5 = conjunct2[OF R4]
  note P6 = conjunct1[OF R5] and R6 = conjunct2[OF R5]
  have a: "\<And>p. ?sp h p \<noteq> [] \<Longrightarrow> hd (?sp h p) = src" using P1 by blast
  have b: "\<And>p. ?d h p < MAX_SAFE_INTEGER \<Longrightarrow> ?sp h p = [] \<Longrightarrow> p = src" using P2 by blast
  have c: "\<And>p u. u \<in> set (?sp h p) \<Longrightarrow> ?d h u < ?d h p" using P3 by blast
  have d: "\<And>p. ?sp h p \<noteq> [] \<Longrightarrow> p \<in> fst ` set (adjacentNodes (node_of h (last (?sp h p))))"
    using P4 by blast
  have ww: "\<And>p q r. (q, r) \<in> set (adjacentNodes (node_of h p)) \<Longrightarrow> r = distance p q"
    using P5 by blast
  have f: "\<And>p. 0 \<le> ?d h p" using P6 by blast
  have g: "?sp h src = []" "?d h src = 0" using R6 by blast+
  have cost_lt: "relax_cost h c v w < ?d h v" using True by blast
  have w: "w = distance c v" by (rule ww[OF e])
  then have w0: "0 \<le> w" by (simp only: distance_nonneg)
  have ge: "?d h c \<le> relax_cost h c v w" by (rule relax_cost_ge[OF w0])
  have vc: "v \<noteq> c"
  proof
    assume "v = c"
    with cost_lt ge show False by simp
  qed
  then have "0 < distance c v" using distance_pos[of c v] by blast
  then have wpos: "0 < w" by (simp only: w)
  have gt: "?d h c < relax_cost h c v w" by (rule relax_cost_gt[OF wpos])
  have vsp: "v \<notin> set (?sp h c)"
  proof
    assume "v \<in> set (?sp h c)"
    from c[OF this] ge cost_lt show False by linarith
  qed
  have vsrc: "v \<noteq> src"
  proof
    assume "v = src"
    with cost_lt g(2) have "relax_cost h c v w < 0" by simp
    with ge f[of c] show False by linarith
  qed
  have nv: "node_of ?h v = (node_of h v)\<lparr>node_distance := relax_cost h c v w,
                       node_shortestPath := ?sp h c @ [c]\<rparr>"
    using True by (simp add: node_of_relax)
  have dv: "?d ?h v = relax_cost h c v w" by (simp only: nv) simp
  have spv: "?sp ?h v = ?sp h c @ [c]" by (simp only: nv) simp
  have no: "\<And>p. p \<noteq> v \<Longrightarrow> node_of ?h p = node_of h p" by (simp add: node_of_relax)
  have dle: "\<And>p. ?d ?h p \<le> ?d h p" by (rule relax_distance_le)
  have adj: "\<And>p. adjacentNodes (node_of ?h p) = adjacentNodes (node_of h p)"
    by (rule relax_adjacentNodes)
  have A: "\<forall>p. ?sp ?h p \<noteq> [] \<longrightarrow> hd (?sp ?h p) = src"
  proof (intro allI impI)
    fix p assume ne: "?sp ?h p \<noteq> []"
    show "hd (?sp ?h p) = src"
    proof (cases "p = v")
      case pv: True
      show ?thesis
      proof (cases "?sp h c = []")
        case True
        from b[OF lt True] have "c = src" .
        then show ?thesis unfolding pv spv True by simp
      next
        case False
        from a[OF False] show ?thesis unfolding pv spv using False by simp
      qed
    next
      case False
      from no[OF False] have pp: "node_of ?h p = node_of h p" .
      from ne have "?sp h p \<noteq> []" unfolding pp .
      from a[OF this] show ?thesis unfolding pp .
    qed
  qed
  have B: "\<forall>p. ?d ?h p < MAX_SAFE_INTEGER \<and> ?sp ?h p = [] \<longrightarrow> p = src"
  proof (intro allI impI)
    fix p assume h: "?d ?h p < MAX_SAFE_INTEGER \<and> ?sp ?h p = []"
    have np: "p \<noteq> v"
    proof
      assume "p = v"
      with h spv show False by simp
    qed
    from no[OF np] have pp: "node_of ?h p = node_of h p" .
    from h have "?d h p < MAX_SAFE_INTEGER" "?sp h p = []" unfolding pp by blast+
    then show "p = src" by (rule b)
  qed
  have C: "\<forall>p. \<forall>u \<in> set (?sp ?h p). ?d ?h u < ?d ?h p"
  proof (intro allI ballI)
    fix p u assume u: "u \<in> set (?sp ?h p)"
    show "?d ?h u < ?d ?h p"
    proof (cases "p = v")
      case pv: True
      from u have u': "u \<in> set (?sp h c) \<or> u = c" unfolding pv spv by auto
      have uv: "u \<noteq> v" using u' vsp vc by blast
      from no[OF uv] have du: "?d ?h u = ?d h u" by simp
      have "?d h u < relax_cost h c v w"
      proof (cases "u = c")
        case True
        then show ?thesis using gt by simp
      next
        case False
        with u' have "u \<in> set (?sp h c)" by blast
        from c[OF this] gt show ?thesis by linarith
      qed
      then show ?thesis unfolding pv dv du .
    next
      case False
      from no[OF False] have pp: "node_of ?h p = node_of h p" .
      from u have "u \<in> set (?sp h p)" unfolding pp .
      from c[OF this] have "?d h u < ?d h p" .
      with dle[of u] show ?thesis unfolding pp by linarith
    qed
  qed
  have D: "\<forall>p. ?sp ?h p \<noteq> [] \<longrightarrow>
          p \<in> fst ` set (adjacentNodes (node_of ?h (last (?sp ?h p))))"
  proof (intro allI impI)
    fix p assume ne: "?sp ?h p \<noteq> []"
    show "p \<in> fst ` set (adjacentNodes (node_of ?h (last (?sp ?h p))))"
    proof (cases "p = v")
      case pv: True
      have l: "last (?sp ?h v) = c" unfolding spv by simp
      have "v \<in> fst ` set (adjacentNodes (node_of h c))" using e by force
      then show ?thesis unfolding pv l adj .
    next
      case False
      from no[OF False] have pp: "node_of ?h p = node_of h p" .
      from ne have "?sp h p \<noteq> []" unfolding pp .
      from d[OF this] show ?thesis unfolding pp adj .
    qed
  qed
  have E: "\<forall>p q r. (q, r) \<in> set (adjacentNodes (node_of ?h p)) \<longrightarrow> r = distance p q"
  proof (intro allI impI)
    fix p q r assume "(q, r) \<in> set (adjacentNodes (node_of ?h p))"
    then have "(q, r) \<in> set (adjacentNodes (node_of h p))" unfolding adj .
    then show "r = distance p q" by (rule ww)
  qed
  have F: "\<forall>p. 0 \<le> ?d ?h p"
  proof
    fix p show "0 \<le> ?d ?h p"
    proof (cases "p = v")
      case True
      show ?thesis unfolding True dv using ge f[of c] by linarith
    next
      case False
      show ?thesis unfolding no[OF False] by (rule f)
    qed
  qed
  have ns: "node_of ?h src = node_of h src" using no[of src] vsrc by blast
  have G: "?sp ?h src = [] \<and> ?d ?h src = 0" unfolding ns using g by blast
  show ?thesis unfolding path_inv_def
    by (intro conjI A B C D E F conjunct1[OF G] conjunct2[OF G])
qed

lemma path_inv_search:
  assumes "search_loop g U S = Inr g'" "path_inv g src"
  shows "path_inv g' src"
proof -
  have "\<exists>S'. (\<lambda>h (T::point set). path_inv h src) g' S'"
  proof (rule search_loop_rule[where I = "\<lambda>h (T::point set). path_inv h src", OF assms(1)])
    show "path_inv g src" by (rule assms(2))
  next
    fix h :: PointGraph and T :: "point set" and c :: point
    assume "path_inv h src" then show "path_inv h src" .
  next
    fix h T c v w
    assume "path_inv h src" "node_distance (node_of h c) < MAX_SAFE_INTEGER"
      "(v, w) \<in> set (adjacentNodes (node_of h c))"
    then show "path_inv (calculateMinimumDistance h v w c) src" by (rule path_inv_relax)
  qed
  then show ?thesis by simp
qed

lemma path_inv_cong:
  assumes eq: "\<And>p. node_of g2 p = node_of g1 p" and inv: "path_inv g1 src"
  shows "path_inv g2 src"
  unfolding path_inv_def eq using inv[unfolded path_inv_def] .

lemma fresh_node_of:
  assumes "fresh_nodes g"
  shows "node_distance (node_of g p) = MAX_SAFE_INTEGER" "node_shortestPath (node_of g p) = []"
proof -
  have "node_distance (node_of g p) = MAX_SAFE_INTEGER \<and> node_shortestPath (node_of g p) = []"
  proof (cases "map_of g p")
    case None
    then show ?thesis by (simp add: node_of_in_graph new_PointNode_def)
  next
    case (Some n)
    then have "node_of g p = n" "(p, n) \<in> set g" by (simp_all add: node_of_in_graph)
    then have "node_of g p = n" "n \<in> snd ` set g" by force+
    with assms show ?thesis unfolding fresh_nodes_def by blast
  qed
  then show "node_distance (node_of g p) = MAX_SAFE_INTEGER" "node_shortestPath (node_of g p) = []"
    by blast+
qed

lemma distance_weights_node_of:
  assumes "distance_weights g" "(v, w) \<in> set (adjacentNodes (node_of g p))"
  shows "w = distance p v"
proof (cases "map_of g p")
  case None
  with assms(2) show ?thesis by (simp add: node_of_in_graph new_PointNode_def)
next
  case (Some n)
  with assms(2) have "(p, n) \<in> set g" "(v, w) \<in> set (adjacentNodes n)"
    by (simp_all add: node_of_in_graph)
  then have "(p, v, w) \<in> set (graph_edges g)" by (force simp: graph_edges_def)
  with assms(1) show ?thesis unfolding distance_weights_def by force
qed

lemma path_inv_initial:
  assumes fr: "fresh_nodes g" and dw: "distance_weights g" and key: "map_of g src \<noteq> None"
  shows "path_inv (AList.map_entry src (\<lambda>n. n\<lparr>node_distance := 0\<rparr>) g) src"
proof -
  let ?g0 = "AList.map_entry src (\<lambda>n. n\<lparr>node_distance := 0\<rparr>) g"
  have n0: "\<And>p. node_of ?g0 p = (if p = src then (node_of g src)\<lparr>node_distance := 0\<rparr> else node_of g p)"
    using key by (simp add: node_of_map_entry)
  have sp: "\<And>p. node_shortestPath (node_of ?g0 p) = []"
    unfolding n0 using fresh_node_of(2)[OF fr] by simp
  have d: "\<And>p. node_distance (node_of ?g0 p) = (if p = src then 0 else MAX_SAFE_INTEGER)"
    unfolding n0 using fresh_node_of(1)[OF fr] by simp
  have adj: "\<And>p. adjacentNodes (node_of ?g0 p) = adjacentNodes (node_of g p)"
    unfolding n0 by simp
  have E: "\<forall>p v w. (v, w) \<in> set (adjacentNodes (node_of ?g0 p)) \<longrightarrow> w = distance p v"
    unfolding adj using distance_weights_node_of[OF dw] by blast
  have F: "\<forall>v. 0 \<le> node_distance (node_of ?g0 v)"
    unfolding d by (simp add: MAX_SAFE_INTEGER_def)
  show ?thesis
    unfolding path_inv_def
  proof (intro conjI)
    show "\<forall>v. node_shortestPath (node_of ?g0 v) \<noteq> [] \<longrightarrow> hd (node_shortestPath (node_of ?g0 v)) = src"
      unfolding sp by simp
    show "\<forall>v. node_distance (node_of ?g0 v) < MAX_SAFE_INTEGER \<and> node_shortestPath (node_of ?g0 v) = []
          \<longrightarrow> v = src"
      unfolding d by simp
    show "\<forall>v. \<forall>u \<in> set (node_shortestPath (node_of ?g0 v)).
          node_distance (node_of ?g0 u) < node_distance (node_of ?g0 v)"
      unfolding sp by simp
    show "\<forall>v. node_shortestPath (node_of ?g0 v) \<noteq> [] \<longrightarrow>
          v \<in> fst ` set (adjacentNodes (node_of ?g0 (last (node_shortestPath (node_of ?g0 v)))))"
      unfolding sp by simp
    show "\<forall>p v w. (v, w) \<in> set (adjacentNodes (node_of ?g0 p)) \<longrightarrow> w = distance p v" by (rule E)
    show "\<forall>v. 0 \<le> node_distance (node_of ?g0 v)" by (rule F)
    show "node_shortestPath (node_of ?g0 src) = []" by (rule sp)
    show "node_distance (node_of ?g0 src) = 0" unfolding d by simp
  qed
qed

lemma path_inv_restart:
  assumes "path_inv g src"
  shows "path_inv (AList.map_entry src (\<lambda>n. n\<lparr>node_distance := 0\<rparr>) g) src"
proof (rule path_inv_cong[OF _ assms])
  fix p
  have "node_distance (node_of g src) = 0" using assms unfolding path_inv_def by blast
  then have "(node_of g src)\<lparr>node_distance := 0\<rparr> = node_of g src" by simp
  then show "node_of (AList.map_entry src (\<lambda>n. n\<lparr>node_distance := 0\<rparr>) g) p = node_of g p"
    by (simp add: node_of_map_entry)
qed

lemma path_inv_path:
  assumes inv: "path_inv g src" and ne: "node_shortestPath (node_of g v) \<noteq> []"
  shows "hd (node_shortestPath (node_of g v)) = src"
    and "v \<notin> set (node_shortestPath (node_of g v))"
    and "v \<in> fst ` set (adjacentNodes (node_of g (last (node_shortestPath (node_of g v)))))"
proof -
  note P = inv[unfolded path_inv_def]
  note P1 = conjunct1[OF P] and R1 = conjunct2[OF P]
  note P2 = conjunct1[OF R1] and R2 = conjunct2[OF R1]
  note P3 = conjunct1[OF R2] and R3 = conjunct2[OF R2]
  note P4 = conjunct1[OF R3]
  from P1 ne show "hd (node_shortestPath (node_of g v)) = src" by blast
  show "v \<notin> set (node_shortestPath (node_of g v))"
  proof
    assume "v \<in> set (node_shortestPath (node_of g v))"
    with P3 have "node_distance (node_of g v) < node_distance (node_of g v)" by blast
    then show False by simp
  qed
  from P4 ne show "v \<in> fst ` set (adjacentNodes (node_of g (last (node_shortestPath (node_of g v)))))"
    by blast
qed

lemma shortestPath_Inr:
  assumes "shortestPath g origin destination = Inr (g', path)"
  shows "map_of g origin \<noteq> None" "map_of g destination \<noteq> None"
    "search_loop (AList.map_entry origin (\<lambda>n. n\<lparr>node_distance := 0\<rparr>) g) [origin] {} = Inr g'"
    "path = node_shortestPath (node_of g' destination)"
  using assms
  by (auto simp: shortestPath_def PointGraph_get_def calculateShortestPathFromSource_def
      split: option.splits sum.splits)

lemma path_inv_reached:
  assumes inv: "path_inv g src" and r: "node_distance (node_of g v) < MAX_SAFE_INTEGER"
    and ne: "v \<noteq> src"
  shows "node_shortestPath (node_of g v) \<noteq> []"
proof -
  note P = inv[unfolded path_inv_def]
  note P2 = conjunct1[OF conjunct2[OF P]]
  show ?thesis
  proof
    assume "node_shortestPath (node_of g v) = []"
    with P2 r have "v = src" by blast
    with ne show False by simp
  qed
qed

lemma shortestPath_path_inv:
  assumes fr: "fresh_nodes g" and dw: "distance_weights g"
    and run: "shortestPath g origin destination = Inr (g', path)"
  shows "path_inv g' origin"
proof -
  note r = shortestPath_Inr[OF run]
  have "path_inv (AList.map_entry origin (\<lambda>n. n\<lparr>node_distance := 0\<rparr>) g) origin"
    by (rule path_inv_initial[OF fr dw r(1)])
  from path_inv_search[OF r(3) this] show ?thesis .
qed

text \<open>
  When the destination is the origin, the search settles it at the distance \<open>0\<close> and
  records no path for it: the list returned is empty.
\<close>

lemma shortestPath_origin_destination:
  assumes fr: "fresh_nodes g" and dw: "distance_weights g"
    and run: "shortestPath g origin origin = Inr (g', path)"
  shows "path = [] \<and> node_distance (node_of g' origin) = 0"
proof -
  from shortestPath_path_inv[OF fr dw run] have "path_inv g' origin" .
  then have "node_shortestPath (node_of g' origin) = []" "node_distance (node_of g' origin) = 0"
    unfolding path_inv_def by blast+
  with shortestPath_Inr(4)[OF run] show ?thesis by simp
qed

text \<open>
  Claim C6, as amended. On a graph as \<open>createGraph\<close> builds it (fresh nodes, every edge
  weighted by the distance of its end points), when \<open>shortestPath\<close> returns and the search
  has reached the destination (its distance is below \<open>MAX_SAFE_INTEGER\<close>) and the
  destination is not the origin, the path is not empty, it starts with the origin, the
  destination is not in it, and its last point is the predecessor of the destination: a
  node adjacent to the destination whose own recorded path is the rest of the path.
\<close>

theorem shortestPath_from_origin_to_predecessor:
  assumes fresh: "\<forall>n \<in> snd ` set g. node_distance n = MAX_SAFE_INTEGER \<and> node_shortestPath n = []"
    and weights: "\<forall>e \<in> set (graph_edges g). snd (snd e) = distance (fst e) (fst (snd e))"
    and run: "shortestPath g origin destination = Inr (g', path)"
    and reached: "node_distance (node_of g' destination) < MAX_SAFE_INTEGER"
    and other: "destination \<noteq> origin"
  shows "path \<noteq> [] \<and> hd path = origin \<and> destination \<notin> set path \<and>
         path = node_shortestPath (node_of g' (last path)) @ [last path] \<and>
         destination \<in> fst ` set (adjacentNodes (node_of g' (last path)))"
proof -
  note r = shortestPath_Inr[OF run]
  have fr: "fresh_nodes g" using fresh by (simp only: fresh_nodes_def)
  have dw: "distance_weights g" using weights by (simp only: distance_weights_def)
  from shortestPath_path_inv[OF fr dw run] have inv: "path_inv g' origin" .
  have ne: "node_shortestPath (node_of g' destination) \<noteq> []"
    by (rule path_inv_reached[OF inv reached other])
  note p = path_inv_path[OF inv ne]
  have f2: "\<forall>n \<in> snd ` set g. node_shortestPath n = []" using fresh by blast
  have nn: "\<forall>e \<in> set (graph_edges g). 0 \<le> snd (snd e)"
  proof
    fix e assume "e \<in> set (graph_edges g)"
    with weights have "snd (snd e) = distance (fst e) (fst (snd e))" by blast
    then show "0 \<le> snd (snd e)" by (simp only: distance_nonneg)
  qed
  have "calculateShortestPathFromSource g origin = Inr g'"
    using r(3) by (simp add: calculateShortestPathFromSource_def)
  from search_chain_inv[OF f2 nn this] obtain S' where "chain_inv g' S'" by blast
  with ne have "node_shortestPath (node_of g' destination) =
      node_shortestPath (node_of g' (last (node_shortestPath (node_of g' destination))))
        @ [last (node_shortestPath (node_of g' destination))]"
    unfolding chain_inv_def by blast
  with p ne show ?thesis unfolding r(4) by blast
qed

theorem shortestPath_from_origin_to_predecessor_witness:
  "shortestPath
     [(makePt 0 0, \<lparr>node_distance = MAX_SAFE_INTEGER, node_shortestPath = [],
                     adjacentNodes = [(makePt 10 0, 10)]\<rparr>),
      (makePt 10 0, \<lparr>node_distance = MAX_SAFE_INTEGER, node_shortestPath = [],
                      adjacentNodes = [(makePt 0 0, 10), (makePt 10 5, 5)]\<rparr>),
      (makePt 10 5, \<lparr>node_distance = MAX_SAFE_INTEGER, node_shortestPath = [],
                      adjacentNodes = [(makePt 10 0, 5)]\<rparr>)]
     (makePt 0 0) (makePt 10 5)
   = Inr ([(makePt 0 0, \<lparr>node_distance = 0, node_shortestPath = [],
                          adjacentNodes = [(makePt 10 0, 10)]\<rparr>),
           (makePt 10 0, \<lparr>node_distance = 10, node_shortestPath = [makePt 0 0],
                           adjacentNodes = [(makePt 0 0, 10), (makePt 10 5, 5)]\<rparr>),
           (makePt 10 5, \<lparr>node_distance = 51, node_shortestPath = [makePt 0 0, makePt 10 0],
                           adjacentNodes = [(makePt 10 0, 5)]\<rparr>)],
          [makePt 0 0, makePt 10 0]) \<and>
   [makePt 0 0, makePt 10 0] \<noteq> [] \<and>
   hd [makePt 0 0, makePt 10 0] = makePt 0 0 \<and>
   makePt 10 5 \<notin> set [makePt 0 0, makePt 10 0]"
proof -
  let ?g = "[(makePt 0 0, \<lparr>node_distance = MAX_SAFE_INTEGER, node_shortestPath = [],
                     adjacentNodes = [(makePt 10 0, 10)]\<rparr>),
      (makePt 10 0, \<lparr>node_distance = MAX_SAFE_INTEGER, node_shortestPath = [],
                      adjacentNodes = [(makePt 0 0, 10), (makePt 10 5, 5)]\<rparr>),
      (makePt 10 5, \<lparr>node_distance = MAX_SAFE_INTEGER, node_shortestPath = [],
                      adjacentNodes = [(makePt 10 0, 5)]\<rparr>)]"
  let ?g' = "[(makePt 0 0, \<lparr>node_distance = 0, node_shortestPath = [],
                          adjacentNodes = [(makePt 10 0, 10)]\<rparr>),
           (makePt 10 0, \<lparr>node_distance = 10, node_shortestPath = [makePt 0 0],
                           adjacentNodes = [(makePt 0 0, 10), (makePt 10 5, 5)]\<rparr>),
           (makePt 10 5, \<lparr>node_distance = 51, node_shortestPath = [makePt 0 0, makePt 10 0],
                           adjacentNodes = [(makePt 10 0, 5)]\<rparr>)]"
  have fresh: "\<forall>n \<in> snd ` set ?g. node_distance n = MAX_SAFE_INTEGER \<and> node_shortestPath n = []"
    by simp
  have weights: "\<forall>e \<in> set (graph_edges ?g). snd (snd e) = distance (fst e) (fst (snd e))"
    by (simp add: graph_edges_def distance_def makePt_def)
  have run: "shortestPath ?g (makePt 0 0) (makePt 10 5) = Inr (?g', [makePt 0 0, makePt 10 0])"
    by (simp add: shortestPath_def PointGraph_get_def search_eval)
  have reached: "node_distance (node_of ?g' (makePt 10 5)) < MAX_SAFE_INTEGER"
    by (simp add: node_of_def makePt_def MAX_SAFE_INTEGER_def)
  have other: "makePt 10 5 \<noteq> makePt 0 0" by (simp add: makePt_def)
  from shortestPath_from_origin_to_predecessor[OF fresh weights run reached other] run
  show ?thesis by blast
qed

text \<open>
  The destination is reached and the list does not begin with the origin: origin and
  destination are the same point \<open>(110, 25)\<close> of the graph of the spots \<open>(110, 25)\<close> and
  \<open>(120, 25)\<close>. The search settles it at the distance \<open>0\<close>, and the list is empty.
\<close>

theorem shortestPath_origin_is_destination:
  "createGraph [makePt 110 25, makePt 120 25]
     = Inr ([(makePt 110 25, \<lparr>node_distance = MAX_SAFE_INTEGER, node_shortestPath = [],
                adjacentNodes = [(makePt 120 25, 10)]\<rparr>),
             (makePt 120 25, \<lparr>node_distance = MAX_SAFE_INTEGER, node_shortestPath = [],
                adjacentNodes = [(makePt 110 25, 10)]\<rparr>)],
            [(makePt 110 25, makePt 120 25)]) \<and>
   shortestPath
     [(makePt 110 25, \<lparr>node_distance = MAX_SAFE_INTEGER, node_shortestPath = [],
         adjacentNodes = [(makePt 120 25, 10)]\<rparr>),
      (makePt 120 25, \<lparr>node_distance = MAX_SAFE_INTEGER, node_shortestPath = [],
         adjacentNodes = [(makePt 110 25, 10)]\<rparr>)]
     (makePt 110 25) (makePt 110 25)
   = Inr ([(makePt 110 25, \<lparr>node_distance = 0, node_shortestPath = [],
              adjacentNodes = [(makePt 120 25, 10)]\<rparr>),
           (makePt 120 25, \<lparr>node_distance = 10, node_shortestPath = [makePt 110 25],
              adjacentNodes = [(makePt 110 25, 10)]\<rparr>)],
          [])"
proof
  show "createGraph [makePt 110 25, makePt 120 25]
     = Inr ([(makePt 110 25, \<lparr>node_distance = MAX_SAFE_INTEGER, node_shortestPath = [],
                adjacentNodes = [(makePt 120 25, 10)]\<rparr>),
             (makePt 120 25, \<lparr>node_distance = MAX_SAFE_INTEGER, node_shortestPath = [],
                adjacentNodes = [(makePt 110 25, 10)]\<rparr>)],
            [(makePt 110 25, makePt 120 25)])"
    by (simp add: createGraph_eval)
next
  show "shortestPath
     [(makePt 110 25, \<lparr>node_distance = MAX_SAFE_INTEGER, node_shortestPath = [],
         adjacentNodes = [(makePt 120 25, 10)]\<rparr>),
      (makePt 120 25, \<lparr>node_distance = MAX_SAFE_INTEGER, node_shortestPath = [],
         adjacentNodes = [(makePt 110 25, 10)]\<rparr>)]
     (makePt 110 25) (makePt 110 25)
   = Inr ([(makePt 110 25, \<lparr>node_distance = 0, node_shortestPath = [],
              adjacentNodes = [(makePt 120 25, 10)]\<rparr>),
           (makePt 120 25, \<lparr>node_distance = 10, node_shortestPath = [makePt 110 25],
              adjacentNodes = [(makePt 110 25, 10)]\<rparr>)],
          [])"
    by (simp add: shortestPath_def PointGraph_get_def search_eval)
qed

section \<open>Errors and results of the routing call\<close>

lemma set_map_entry_subset:
  "set (AList.map_entry k f g) \<subseteq> set g \<union> {(k, f n) | n. (k, n) \<in> set g}"
  by (induction g) auto

lemma connect_fresh:
  assumes "PointGraph_connect g a b = Inr g1" "fresh_nodes g"
  shows "fresh_nodes g1"
proof -
  let ?f = "\<lambda>n. n\<lparr>adjacentNodes := AList.update b (distance a b) (adjacentNodes n)\<rparr>"
  from assms(1) have g1: "g1 = AList.map_entry a ?f g"
    by (auto simp: PointGraph_connect_def split: option.splits)
  show ?thesis
    unfolding fresh_nodes_def
  proof
    fix n assume "n \<in> snd ` set g1"
    then obtain p where "(p, n) \<in> set g1" by force
    with set_map_entry_subset[of a ?f g] g1
    have "(p, n) \<in> set g \<or> (\<exists>m. (a, m) \<in> set g \<and> n = ?f m)" by auto
    then show "node_distance n = MAX_SAFE_INTEGER \<and> node_shortestPath n = []"
    proof
      assume "(p, n) \<in> set g"
      then have "n \<in> snd ` set g" by force
      with assms(2) show ?thesis unfolding fresh_nodes_def by blast
    next
      assume "\<exists>m. (a, m) \<in> set g \<and> n = ?f m"
      then obtain m where m: "(a, m) \<in> set g" "n = ?f m" by blast
      then have "m \<in> snd ` set g" by force
      with assms(2) have "node_distance m = MAX_SAFE_INTEGER \<and> node_shortestPath m = []"
        unfolding fresh_nodes_def by blast
      with m(2) show ?thesis by simp
    qed
  qed
qed

lemma connect_pair_fresh:
  assumes "connect_pair a b st = Inr st'" "fresh_nodes (fst st)"
  shows "fresh_nodes (fst st')"
proof -
  from assms(1) obtain g1 g2 where "PointGraph_connect (fst st) a b = Inr g1"
    "PointGraph_connect g1 b a = Inr g2" "st' = (g2, snd st @ [(a, b)])"
    by (auto simp: connect_pair_def split: sum.splits)
  with assms(2) show ?thesis using connect_fresh by auto
qed

lemma createGraph_cell_fresh:
  assumes "createGraph_cell hotXs hotYs i j st = Inr st'" "fresh_nodes (fst st)"
  shows "fresh_nodes (fst st')"
proof -
  let ?b = "makePt (hotXs ! j) (hotYs ! i)"
  let ?a1 = "makePt (hotXs ! (j - 1)) (hotYs ! i)"
  let ?a2 = "makePt (hotXs ! j) (hotYs ! (i - 1))"
  show ?thesis
  proof (cases "PointGraph_has (fst st) ?b")
    case False
    with assms show ?thesis by (simp add: createGraph_cell_def)
  next
    case True
    let ?s1 = "if j > 0 then (if PointGraph_has (fst st) ?a1 then connect_pair ?a1 ?b st else Inr st)
             else Inr st"
    have c: "createGraph_cell hotXs hotYs i j st =
        (case ?s1 of Inl e \<Rightarrow> Inl e
         | Inr st1 \<Rightarrow> (if i > 0 then
                (if PointGraph_has (fst st1) ?a2 then connect_pair ?a2 ?b st1 else Inr st1)
              else Inr st1))"
      unfolding createGraph_cell_def Let_def by (simp only: True not_True_eq_False if_False)
    from assms(1) c obtain st1 where s1: "?s1 = Inr st1"
      and s2: "(if i > 0 then
                (if PointGraph_has (fst st1) ?a2 then connect_pair ?a2 ?b st1 else Inr st1)
              else Inr st1) = Inr st'"
      by (cases ?s1) simp_all
    have f1: "fresh_nodes (fst st1)"
    proof (cases "j > 0 \<and> PointGraph_has (fst st) ?a1")
      case True
      with s1 have "connect_pair ?a1 ?b st = Inr st1" by simp
      from connect_pair_fresh[OF this assms(2)] show ?thesis .
    next
      case False
      with s1 have "st1 = st" by (auto split: if_splits)
      with assms(2) show ?thesis by simp
    qed
    show ?thesis
    proof (cases "i > 0 \<and> PointGraph_has (fst st1) ?a2")
      case True
      with s2 have "connect_pair ?a2 ?b st1 = Inr st'" by simp
      from connect_pair_fresh[OF this f1] show ?thesis .
    next
      case False
      with s2 have "st' = st1" by (auto split: if_splits)
      with f1 show ?thesis by simp
    qed
  qed
qed

lemma fold_err_preserves:
  assumes "fold_err f as s = Inr s'" "P s"
    and "\<And>a t t'. f a t = Inr t' \<Longrightarrow> P t \<Longrightarrow> P t'"
  shows "P s'"
  using assms(1,2)
proof (induction as arbitrary: s)
  case Nil
  then show ?case by simp
next
  case (Cons a as)
  from Cons.prems(1) obtain s1 where s1: "f a s = Inr s1" "fold_err f as s1 = Inr s'"
    by (cases "f a s") simp_all
  from assms(3)[OF s1(1) Cons.prems(2)] have "P s1" .
  from Cons.IH[OF s1(2) this] show ?case .
qed

lemma PointGraph_add_fresh: "fresh_nodes g \<Longrightarrow> fresh_nodes (PointGraph_add g p)"
  by (auto simp: fresh_nodes_def PointGraph_add_def new_PointNode_def split: option.splits)

lemma createGraph_collect_fresh:
  "fold (\<lambda>p (hotXs, hotYs, graph).
             (if x p \<in> set hotXs then hotXs else hotXs @ [x p],
              if y p \<in> set hotYs then hotYs else hotYs @ [y p],
              PointGraph_add graph p)) spots (hx0, hy0, g0) = (hx, hy, g)
   \<Longrightarrow> fresh_nodes g0 \<Longrightarrow> fresh_nodes g"
proof (induction spots arbitrary: hx0 hy0 g0)
  case Nil
  then show ?case by simp
next
  case (Cons p spots)
  from Cons.prems(1) have "fold (\<lambda>p (hotXs, hotYs, graph).
             (if x p \<in> set hotXs then hotXs else hotXs @ [x p],
              if y p \<in> set hotYs then hotYs else hotYs @ [y p],
              PointGraph_add graph p)) spots
        (if x p \<in> set hx0 then hx0 else hx0 @ [x p],
         if y p \<in> set hy0 then hy0 else hy0 @ [y p], PointGraph_add g0 p) = (hx, hy, g)"
    by simp
  from Cons.IH[OF this PointGraph_add_fresh[OF Cons.prems(2)]] show ?case .
qed

lemma createGraph_fresh:
  assumes "createGraph spots = Inr (g, conns)"
  shows "fresh_nodes g"
proof -
  obtain hx hy g0 where c: "createGraph_collect spots = (hx, hy, g0)"
    by (cases "createGraph_collect spots") auto
  then have "fresh_nodes g0"
    using createGraph_collect_fresh[of spots "[]" "[]" "[]" hx hy g0]
    by (simp add: createGraph_collect_def fresh_nodes_def)
  then have p0: "fresh_nodes (fst (g0, []::Line list))" by simp
  from assms c have f: "fold_err (\<lambda>i. fold_err (\<lambda>j. createGraph_cell (sort hx) (sort hy) i j)
      [0..<length (sort hx)]) [0..<length (sort hy)] (g0, []) = Inr (g, conns)"
    by (simp add: createGraph_def Let_def)
  have "fresh_nodes (fst (g, conns))"
  proof (rule fold_err_preserves[where P = "\<lambda>st. fresh_nodes (fst st)", OF f p0])
    fix i and t t' :: "PointGraph \<times> Line list"
    assume a: "fold_err (\<lambda>j. createGraph_cell (sort hx) (sort hy) i j) [0..<length (sort hx)] t = Inr t'"
      and b: "fresh_nodes (fst t)"
    show "fresh_nodes (fst t')"
      by (rule fold_err_preserves[where P = "\<lambda>st. fresh_nodes (fst st)", OF a b])
         (rule createGraph_cell_fresh)
  qed
  then show ?thesis by simp
qed

lemma createGraph_distance_weights:
  assumes "createGraph spots = Inr (g, conns)"
  shows "distance_weights g" "set (map fst g) = set spots"
proof -
  from createGraph_ok[of spots] assms have ok: "graph_ok g" and k: "set (map fst g) = set spots"
    by auto
  show "distance_weights g"
    unfolding distance_weights_def using graph_ok_edges(2)[OF ok] by auto
  show "set (map fst g) = set spots" by (rule k)
qed

lemma antenna_spot_extrudeCp: "antenna_spot cp m = extrudeCp cp m"
  by (cases "side cp") (simp_all add: antenna_spot_def extrudeCp_def Let_def)

lemma search_loop_error: "search_loop g U S = Inl e \<Longrightarrow> e = NullNode"
proof (induction g U S rule: search_loop.induct)
  case (1 g U S)
  show ?case
  proof (cases "length U = 0")
    case True
    with "1.prems" show ?thesis by (subst (asm) search_loop.simps) simp
  next
    case False
    show ?thesis
    proof (cases "getLowestDistanceNode g U")
      case None
      with False "1.prems" show ?thesis by (subst (asm) search_loop.simps) simp
    next
      case (Some c)
      obtain g1 U1 where st: "settle_step g U S c = (g1, U1)"
        by (cases "settle_step g U S c")
      from False Some st "1.prems" have "search_loop g1 U1 (insert c S) = Inl e"
        by (subst (asm) search_loop.simps) simp
      from "1.IH"[OF False Some st[symmetric] this] show ?thesis .
    qed
  qed
qed

lemma search_loop_keys:
  assumes "search_loop g U S = Inr g'"
  shows "adj_shape g' = adj_shape g"
proof -
  have "\<exists>S'. (\<lambda>h (T::point set). adj_shape h = adj_shape g) g' S'"
  proof (rule search_loop_rule[where I = "\<lambda>h (T::point set). adj_shape h = adj_shape g", OF assms])
    show "adj_shape g = adj_shape g" by simp
  next
    fix h :: PointGraph and T :: "point set" and c :: point
    assume "adj_shape h = adj_shape g" then show "adj_shape h = adj_shape g" .
  next
    fix h :: PointGraph and T :: "point set" and c v :: point and w :: real
    assume "adj_shape h = adj_shape g"
    then show "adj_shape (calculateMinimumDistance h v w c) = adj_shape g"
      by (simp add: adj_shape_calculateMinimumDistance)
  qed
  then show ?thesis by simp
qed

lemma adj_shape_keys: "adj_shape g1 = adj_shape g \<Longrightarrow> map fst g1 = map fst g"
proof -
  assume "adj_shape g1 = adj_shape g"
  then have "map fst (adj_shape g1) = map fst (adj_shape g)" by simp
  then show ?thesis by (simp add: adj_shape_def comp_def)
qed

lemma shortestPath_keys:
  assumes "shortestPath g origin destination = Inr (g', path)"
  shows "map fst g' = map fst g"
proof -
  from shortestPath_Inr(3)[OF assms] have "adj_shape g' =
      adj_shape (AList.map_entry origin (\<lambda>n. n\<lparr>node_distance := 0\<rparr>) g)"
    by (rule search_loop_keys)
  then have "map fst g' = map fst (AList.map_entry origin (\<lambda>n. n\<lparr>node_distance := 0\<rparr>) g)"
    by (rule adj_shape_keys)
  then show ?thesis by (simp add: map_fst_map_entry)
qed

lemma shortestPath_error:
  assumes "shortestPath g origin destination = Inl e"
  shows "(e = OriginNodeNotFound origin \<and>
            (\<not> PointGraph_has g origin \<or> \<not> PointGraph_has g destination)) \<or>
         (e = NullNode \<and> PointGraph_has g origin \<and> PointGraph_has g destination)"
proof (cases "map_of g origin")
  case None
  with assms show ?thesis by (simp add: shortestPath_def PointGraph_get_def PointGraph_has_def)
next
  case so: (Some n)
  show ?thesis
  proof (cases "map_of g destination")
    case None
    with so assms show ?thesis
      by (simp add: shortestPath_def PointGraph_get_def PointGraph_has_def)
  next
    case (Some m)
    with so assms have "calculateShortestPathFromSource g origin = Inl e"
      by (simp add: shortestPath_def PointGraph_get_def split: sum.splits)
    then have "e = NullNode"
      unfolding calculateShortestPathFromSource_def by (rule search_loop_error)
    with so Some show ?thesis by (simp add: PointGraph_has_def)
  qed
qed

lemma simplifyPath_Inr: "\<exists>Q. simplifyPath P = Inr Q"
proof (cases P)
  case Nil
  then show ?thesis by (simp add: simplifyPath_def)
next
  case (Cons a xs)
  then show ?thesis by (simp add: simplifyPath_keep_from)
qed

lemma route_antennas_in_graph:
  assumes "route_shapes opts = (m, iA, iB)"
  shows "\<exists>graph conns. createGraph (route_spots opts) = Inr (graph, conns) \<and>
      PointGraph_has graph (extrudeCp (pointA opts) m) \<and>
      PointGraph_has graph (extrudeCp (pointB opts) m) \<and>
      fresh_nodes graph \<and> distance_weights graph"
proof -
  from createGraph_ok[of "route_spots opts"] obtain graph conns where
    g: "createGraph (route_spots opts) = Inr (graph, conns)"
      "set (map fst graph) = set (route_spots opts)" by blast
  have "extrudeCp (pointA opts) m \<in> set (route_spots opts)"
       "extrudeCp (pointB opts) m \<in> set (route_spots opts)"
    using assms by (simp_all add: route_spots_def Let_def antenna_spot_extrudeCp)
  then have "extrudeCp (pointA opts) m \<in> fst ` set graph" "extrudeCp (pointB opts) m \<in> fst ` set graph"
    using g(2) by simp_all
  then have "PointGraph_has graph (extrudeCp (pointA opts) m)"
    "PointGraph_has graph (extrudeCp (pointB opts) m)"
    by (simp_all add: PointGraph_has_def map_of_eq_None_iff)
  with g(1) createGraph_fresh[OF g(1)] createGraph_distance_weights(1)[OF g(1)]
  show ?thesis by blast
qed

lemma route_unfold:
  assumes s: "route_shapes opts = (m, iA, iB)"
    and g: "createGraph (route_spots opts) = Inr (graph, conns)"
  shows "route opts =
     (case shortestPath graph (extrudeCp (pointA opts) m) (extrudeCp (pointB opts) m) of
        Inl e \<Rightarrow> Inl e
      | Inr r1 \<Rightarrow>
          if length (snd r1) > 0 then
            (case shortestPath (fst r1) (extrudeCp (pointA opts) m) (extrudeCp (pointB opts) m) of
               Inl e \<Rightarrow> Inl e
             | Inr r2 \<Rightarrow> simplifyPath ([computePt (pointA opts)] @ snd r2 @ [computePt (pointB opts)]))
          else Inr [])"
  unfolding route_def s g by (simp add: Let_def split: sum.splits prod.splits)

lemma search_keeps_path_nonempty:
  assumes "search_loop g U S = Inr g'" "node_shortestPath (node_of g v) \<noteq> []"
  shows "node_shortestPath (node_of g' v) \<noteq> []"
proof -
  have "\<exists>S'. (\<lambda>h (T::point set). node_shortestPath (node_of h v) \<noteq> []) g' S'"
  proof (rule search_loop_rule[where I = "\<lambda>h (T::point set). node_shortestPath (node_of h v) \<noteq> []",
        OF assms(1)])
    show "node_shortestPath (node_of g v) \<noteq> []" by (rule assms(2))
  next
    fix h :: PointGraph and T :: "point set" and c :: point
    assume "node_shortestPath (node_of h v) \<noteq> []"
    then show "node_shortestPath (node_of h v) \<noteq> []" .
  next
    fix h :: PointGraph and T :: "point set" and c u :: point and w :: real
    assume "node_shortestPath (node_of h v) \<noteq> []"
    then show "node_shortestPath (node_of (calculateMinimumDistance h u w c) v) \<noteq> []"
      by (simp add: node_of_relax)
  qed
  then show ?thesis by simp
qed

lemma shortestPath_twice:
  assumes fr: "fresh_nodes g" and dw: "distance_weights g"
    and r1: "shortestPath g origin destination = Inr (g1, p1)" and ne: "p1 \<noteq> []"
    and r2: "shortestPath g1 origin destination = Inr (g2, p2)"
  shows "p2 \<noteq> [] \<and> hd p2 = origin \<and> destination \<notin> set p2"
proof -
  note a = shortestPath_Inr[OF r1]
  note b = shortestPath_Inr[OF r2]
  have "path_inv (AList.map_entry origin (\<lambda>n. n\<lparr>node_distance := 0\<rparr>) g) origin"
    by (rule path_inv_initial[OF fr dw a(1)])
  from path_inv_search[OF a(3) this] have i1: "path_inv g1 origin" .
  from path_inv_search[OF b(3) path_inv_restart[OF i1]] have i2: "path_inv g2 origin" .
  have "node_shortestPath (node_of g1 destination) \<noteq> []" using ne a(4) by simp
  then have "node_shortestPath
      (node_of (AList.map_entry origin (\<lambda>n. n\<lparr>node_distance := 0\<rparr>) g1) destination) \<noteq> []"
    by (auto simp: node_of_map_entry)
  from search_keeps_path_nonempty[OF b(3) this]
  have n2: "node_shortestPath (node_of g2 destination) \<noteq> []" .
  from path_inv_path(1,2)[OF i2 n2] n2 show ?thesis unfolding b(4) by blast
qed

lemma route_error_NullNode:
  assumes "route opts = Inl e"
  shows "e = NullNode"
proof -
  obtain m iA iB where s: "route_shapes opts = (m, iA, iB)" by (cases "route_shapes opts")
  from route_antennas_in_graph[OF s] obtain graph conns where
    g: "createGraph (route_spots opts) = Inr (graph, conns)"
    and hA: "PointGraph_has graph (extrudeCp (pointA opts) m)"
    and hB: "PointGraph_has graph (extrudeCp (pointB opts) m)" by blast
  let ?o = "extrudeCp (pointA opts) m"
  let ?d = "extrudeCp (pointB opts) m"
  note u = route_unfold[OF s g]
  show ?thesis
  proof (cases "shortestPath graph ?o ?d")
    case (Inl e1)
    with u assms have "e1 = e" by simp
    with shortestPath_error[OF Inl] hA hB show ?thesis by blast
  next
    case (Inr r1)
    show ?thesis
    proof (cases "length (snd r1) > 0")
      case False
      with u Inr assms show ?thesis by simp
    next
      case True
      have k: "map fst (fst r1) = map fst graph"
        using shortestPath_keys[of graph ?o ?d "fst r1" "snd r1"] Inr by simp
      show ?thesis
      proof (cases "shortestPath (fst r1) ?o ?d")
        case (Inl e2)
        with u Inr True assms have "e2 = e" by simp
        with shortestPath_error[OF Inl] hA hB has_keys_eq[OF k] show ?thesis by blast
      next
        case r2: (Inr r2)
        from simplifyPath_Inr obtain Q where
          "simplifyPath ([computePt (pointA opts)] @ snd r2 @ [computePt (pointB opts)]) = Inr Q"
          by blast
        with u Inr True r2 assms show ?thesis by simp
      qed
    qed
  qed
qed

lemma route_segment:
  assumes r: "route opts = Inr poly" and ne: "poly \<noteq> []"
  shows "\<exists>seg. seg \<noteq> [] \<and> hd seg = extrudeCp (pointA opts) (fst (route_shapes opts)) \<and>
           extrudeCp (pointB opts) (fst (route_shapes opts)) \<notin> set seg \<and>
           simplifyPath ([computePt (pointA opts)] @ seg @ [computePt (pointB opts)]) = Inr poly"
proof -
  obtain m iA iB where s: "route_shapes opts = (m, iA, iB)" by (cases "route_shapes opts")
  from route_antennas_in_graph[OF s] obtain graph conns where
    g: "createGraph (route_spots opts) = Inr (graph, conns)"
    and fr: "fresh_nodes graph" and dw: "distance_weights graph" by blast
  let ?o = "extrudeCp (pointA opts) m"
  let ?d = "extrudeCp (pointB opts) m"
  note u = route_unfold[OF s g]
  from u r obtain r1 where r1: "shortestPath graph ?o ?d = Inr r1"
    by (cases "shortestPath graph ?o ?d") simp_all
  have l: "length (snd r1) > 0"
  proof (rule ccontr)
    assume "\<not> length (snd r1) > 0"
    with u r r1 have "poly = []" by simp
    with ne show False by simp
  qed
  from u r r1 l obtain r2 where r2: "shortestPath (fst r1) ?o ?d = Inr r2"
    by (cases "shortestPath (fst r1) ?o ?d") simp_all
  from u r r1 l r2 have sp: "simplifyPath ([computePt (pointA opts)] @ snd r2 @ [computePt (pointB opts)])
      = Inr poly" by simp
  have "snd r2 \<noteq> [] \<and> hd (snd r2) = ?o \<and> ?d \<notin> set (snd r2)"
    by (rule shortestPath_twice[OF fr dw _ _ _, of ?o ?d "fst r1" "snd r1" "fst r2"])
       (use r1 l r2 in simp_all)
  with sp s show ?thesis by auto
qed

lemma route_unreached_empty:
  assumes s: "route_shapes opts = (m, iA, iB)"
    and g: "createGraph (route_spots opts) = Inr (graph, conns)"
    and r1: "shortestPath graph (extrudeCp (pointA opts) m) (extrudeCp (pointB opts) m) = Inr (g1, [])"
  shows "route opts = Inr []"
  unfolding route_unfold[OF s g] r1 by simp


end
